theory Spec2Isabelle
  imports Main "HOL-Library.AList"
begin

section \<open>Python string operations used by the switcher\<close>

text \<open>
  Python strings are modelled as HOL strings, one \<open>char\<close> per code point below 256.
  \<open>is_space\<close> is \<open>str.isspace\<close> on those code points: the characters
  \<open>str.strip\<close>, \<open>str.rstrip\<close> remove.
\<close>

definition is_space :: "char \<Rightarrow> bool" where
  "is_space c = (c \<in> set [CHR 0x09, CHR 0x0A, CHR 0x0B, CHR 0x0C, CHR 0x0D,
                           CHR 0x1C, CHR 0x1D, CHR 0x1E, CHR 0x1F, CHR 0x20,
                           CHR 0x85, CHR 0xA0])"

definition lstrip :: "string \<Rightarrow> string" where
  "lstrip s = dropWhile is_space s"

definition rstrip :: "string \<Rightarrow> string" where
  "rstrip s = rev (dropWhile is_space (rev s))"

definition strip :: "string \<Rightarrow> string" where
  "strip s = lstrip (rstrip s)"

text \<open>\<open>str.lower\<close> on code points below 256: the upper-case letters are 65 to 90 and
  192 to 222 without 215, and the lower-case letter is 32 further, which sets bit 5.\<close>

definition lower_char :: "char \<Rightarrow> char" where
  "lower_char c =
     (let n = (of_char c :: nat)
      in if (65 \<le> n \<and> n \<le> 90) \<or> (192 \<le> n \<and> n \<le> 222 \<and> n \<noteq> 215)
         then (case c of Char b0 b1 b2 b3 b4 b5 b6 b7 \<Rightarrow> Char b0 b1 b2 b3 b4 True b6 b7)
         else c)"

definition lower :: "string \<Rightarrow> string" where
  "lower s = map lower_char s"

text \<open>\<open>s.split(c)\<close> for a one-character separator: never the empty list.\<close>

fun split_on :: "char \<Rightarrow> string \<Rightarrow> string list" where
  "split_on c [] = [[]]"
| "split_on c (x # xs) =
     (if x = c then [] # split_on c xs
      else (case split_on c xs of
              [] \<Rightarrow> [[x]]
            | l # ls \<Rightarrow> (x # l) # ls))"

text \<open>\<open>sep.join(parts)\<close>.\<close>

fun join :: "string \<Rightarrow> string list \<Rightarrow> string" where
  "join sep [] = []"
| "join sep [p] = p"
| "join sep (p # q # ps) = p @ sep @ join sep (q # ps)"

text \<open>\<open>a in b\<close> on strings: \<open>a\<close> occurs in \<open>b\<close> as a contiguous run.\<close>

fun starts_with :: "string \<Rightarrow> string \<Rightarrow> bool" where
  "starts_with [] ys = True"
| "starts_with (x # xs) [] = False"
| "starts_with (x # xs) (y # ys) = (x = y \<and> starts_with xs ys)"

fun py_in :: "string \<Rightarrow> string \<Rightarrow> bool" where
  "py_in a [] = (a = [])"
| "py_in a (y # ys) = (starts_with a (y # ys) \<or> py_in a ys)"

text \<open>
  \<open>fnmatch.fnmatch(name, pat)\<close> on a POSIX system (no case folding): \<open>*\<close> matches any
  run of characters, the path separator included, \<open>?\<close> matches one character, every
  other character matches itself, and the whole name has to be consumed. Bracket
  expressions are left out: no pattern of the switcher contains one.
\<close>

fun fnmatch :: "string \<Rightarrow> string \<Rightarrow> bool" where
  "fnmatch [] [] = True"
| "fnmatch (c # cs) [] = False"
| "fnmatch [] (p # ps) = (p = CHR ''*'' \<and> fnmatch [] ps)"
| "fnmatch (c # cs) (p # ps) =
     (if p = CHR ''*'' then fnmatch (c # cs) ps \<or> fnmatch cs (p # ps)
      else if p = CHR ''?'' then fnmatch cs ps
      else c = p \<and> fnmatch cs ps)"

section \<open>The switcher object\<close>

type_synonym path = "string list"

text \<open>The attributes set by \<open>CodebaseSwitcher.__init__\<close> (the working directory is part
  of the world below).\<close>

record switcher =
  states :: "string list"
  script_files :: "string list"
  zip_exclude_patterns :: "string list"

definition CodebaseSwitcher :: switcher where
  "CodebaseSwitcher =
     \<lparr> states = [''preedit'', ''gpt'', ''sonnet''],
       script_files = [''switch.py''],
       zip_exclude_patterns =
         [''*.env'', ''*.zip'', ''*.DS_Store'', ''*.code'', ''__pycache__'',
          ''dist'', ''bin'', ''.venv'', ''venv'', ''node_modules'', ''target''] \<rparr>"

text \<open>\<open>str(rel_path)\<close> of a relative POSIX path, and \<open>rel_path.name\<close>.\<close>

definition path_str :: "path \<Rightarrow> string" where
  "path_str p = join ''/'' p"

definition path_name :: "path \<Rightarrow> string" where
  "path_name p = (if p = [] then [] else last p)"

text \<open>\<open>should_exclude\<close>: the loop over the patterns returns at the first pattern that
  matches the whole relative path or one of its segments.\<close>

fun exclude_loop :: "string list \<Rightarrow> path \<Rightarrow> bool" where
  "exclude_loop [] rel_path = False"
| "exclude_loop (pattern # rest) rel_path =
     (if fnmatch (path_str rel_path) pattern then True
      else if list_ex (\<lambda>part. fnmatch part pattern) rel_path then True
      else exclude_loop rest rel_path)"

definition should_exclude :: "switcher \<Rightarrow> path \<Rightarrow> bool" where
  "should_exclude self rel_path = exclude_loop (zip_exclude_patterns self) rel_path"

section \<open>The world outside the program\<close>

text \<open>
  The switcher acts on three things it does not own: the files of the working directory,
  the version-control client it runs as a subprocess, and the clock. They are one
  \<open>world\<close> value, passed through every operation and returned updated.

  A file holds text or is an archive (the list of its members). A tree is an association
  list from relative paths to contents, read through \<open>map_of\<close>. A branch points to a
  chain of commits, newest first, each a message and the tree it records.
\<close>

datatype content = Text string | Zip "(string \<times> content) list"

type_synonym tree = "(path \<times> content) list"

type_synonym chain = "(string \<times> tree) list"

datatype head_ref = OnBranch string | Detached chain

record repo =
  r_head :: head_ref
  r_branches :: "(string \<times> chain) list"
  r_index :: tree

text \<open>The argument vectors the switcher passes to the client, one constructor each:
  \<open>init\<close>, \<open>config --local k v\<close>, \<open>log --oneline -n\<close>, \<open>add .\<close>, \<open>commit -m msg\<close>,
  \<open>status --porcelain\<close>, \<open>status --short\<close>, \<open>checkout -b name\<close>, \<open>checkout name\<close>,
  \<open>branch --list name\<close>, \<open>branch --show-current\<close>, \<open>branch -D name\<close>, \<open>reset --hard\<close>,
  \<open>clean -fd\<close>, \<open>diff --quiet a b\<close>.\<close>

datatype git_cmd =
    Init
  | Config string string
  | Log_oneline nat
  | Add_all
  | Commit string
  | Status_porcelain
  | Status_short
  | Checkout_b string
  | Checkout string
  | Branch_list string
  | Branch_show_current
  | Branch_D string
  | Reset_hard
  | Clean_fd
  | Diff_quiet string string

record datetime =
  dt_year :: nat
  dt_month :: nat
  dt_day :: nat
  dt_hour :: nat
  dt_minute :: nat
  dt_second :: nat

record world =
  git_on_path :: bool
  repo :: "repo option"
  worktree :: tree
  io_fail :: "path list"
  clock :: datetime
  dir_name :: string
  default_branch :: string
  calls :: "git_cmd list"

text \<open>
  \<open>git_on_path\<close>: the client is found on the execution path. \<open>repo\<close>: the metadata
  store \<open>.git\<close>, absent before \<open>git init\<close>. \<open>worktree\<close>: the regular files of the working
  directory outside \<open>.git\<close>. \<open>io_fail\<close>: the paths on which reading or writing raises
  \<open>OSError\<close>. \<open>calls\<close>: every subprocess started so far, in order.
\<close>

definition newline :: char where
  "newline = CHR 0x0A"

definition digit :: "nat \<Rightarrow> char" where
  "digit n = ''0123456789'' ! (n mod 10)"

definition pad2 :: "nat \<Rightarrow> string" where
  "pad2 n = [digit (n div 10), digit n]"

definition pad4 :: "nat \<Rightarrow> string" where
  "pad4 n = [digit (n div 1000), digit (n div 100), digit (n div 10), digit n]"

text \<open>\<open>strftime('%Y-%m-%d %H:%M:%S')\<close> and \<open>strftime('%Y%m%d_%H%M%S')\<close>.\<close>

definition strftime_readme :: "datetime \<Rightarrow> string" where
  "strftime_readme d =
     pad4 (dt_year d) @ ''-'' @ pad2 (dt_month d) @ ''-'' @ pad2 (dt_day d) @ '' '' @
     pad2 (dt_hour d) @ '':'' @ pad2 (dt_minute d) @ '':'' @ pad2 (dt_second d)"

definition strftime_stamp :: "datetime \<Rightarrow> string" where
  "strftime_stamp d =
     pad4 (dt_year d) @ pad2 (dt_month d) @ pad2 (dt_day d) @ ''_'' @
     pad2 (dt_hour d) @ pad2 (dt_minute d) @ pad2 (dt_second d)"

subsection \<open>Trees\<close>

definition tree_eq :: "tree \<Rightarrow> tree \<Rightarrow> bool" where
  "tree_eq a b = list_all (\<lambda>p. map_of a p = map_of b p) (map fst a @ map fst b)"

definition tip_tree :: "chain \<Rightarrow> tree" where
  "tip_tree c = (case c of [] \<Rightarrow> [] | (m, t) # _ \<Rightarrow> t)"

definition head_chain :: "repo \<Rightarrow> chain" where
  "head_chain r =
     (case r_head r of
        OnBranch b \<Rightarrow> (case map_of (r_branches r) b of None \<Rightarrow> [] | Some c \<Rightarrow> c)
      | Detached c \<Rightarrow> c)"

definition head_tree :: "repo \<Rightarrow> tree" where
  "head_tree r = tip_tree (head_chain r)"

text \<open>The paths that \<open>git status\<close> lists: staged against the head commit, or different
  in the working directory from the index (untracked files among them).\<close>

definition changed_paths :: "repo \<Rightarrow> tree \<Rightarrow> path list" where
  "changed_paths r W =
     filter (\<lambda>p. map_of (r_index r) p \<noteq> map_of (head_tree r) p \<or>
                 map_of W p \<noteq> map_of (r_index r) p)
       (remdups (map fst (head_tree r) @ map fst (r_index r) @ map fst W))"

definition status_lines :: "repo \<Rightarrow> tree \<Rightarrow> string" where
  "status_lines r W = concat (map (\<lambda>p. ''M '' @ path_str p @ [newline]) (changed_paths r W))"

text \<open>
  Changing from a commit with tree \<open>H\<close> to one with tree \<open>T\<close>: a path on which the two
  differ takes the content of \<open>T\<close>, every other path keeps what it has. The client
  refuses when a path on which they differ carries a local change.
\<close>

definition switch_tree :: "tree \<Rightarrow> tree \<Rightarrow> tree \<Rightarrow> tree" where
  "switch_tree H T X =
     List.map_filter
       (\<lambda>p. map_option (Pair p) (if map_of H p = map_of T p then map_of X p else map_of T p))
       (remdups (map fst X @ map fst T))"

definition checkout_conflict :: "tree \<Rightarrow> tree \<Rightarrow> tree \<Rightarrow> tree \<Rightarrow> bool" where
  "checkout_conflict H T I W =
     list_ex (\<lambda>p. map_of H p \<noteq> map_of T p \<and>
                  (map_of I p \<noteq> map_of H p \<or> map_of W p \<noteq> map_of I p))
       (map fst H @ map fst T @ map fst I @ map fst W)"

text \<open>\<open>reset --hard\<close>: tracked paths take the content of the head commit, untracked
  files stay. \<open>clean -fd\<close>: the untracked files go.\<close>

definition reset_tree :: "tree \<Rightarrow> tree \<Rightarrow> tree \<Rightarrow> tree" where
  "reset_tree H I W =
     List.map_filter
       (\<lambda>p. map_option (Pair p)
              (if map_of I p \<noteq> None \<or> map_of H p \<noteq> None then map_of H p else map_of W p))
       (remdups (map fst W @ map fst H))"

definition clean_tree :: "tree \<Rightarrow> tree \<Rightarrow> tree" where
  "clean_tree I W = filter (\<lambda>(p, c). map_of I p \<noteq> None) W"

text \<open>A new commit with message \<open>m\<close> records the index, on top of the chain the head is
  on: the branch moves to it, or the detached head does.\<close>

definition record_commit :: "string \<Rightarrow> repo \<Rightarrow> repo" where
  "record_commit m r =
     (case r_head r of
        OnBranch b \<Rightarrow>
          r\<lparr>r_branches := AList.update b ((m, r_index r) # head_chain r) (r_branches r)\<rparr>
      | Detached c \<Rightarrow> r\<lparr>r_head := Detached ((m, r_index r) # c)\<rparr>)"

subsection \<open>The version-control client\<close>

text \<open>
  One command in an existing repository: exit status, standard output, the repository
  and the working files afterwards. Identity configuration, hooks and ignore rules are
  not modelled; the abbreviated hash that \<open>log --oneline\<close> prints is a fixed placeholder
  and \<open>status\<close> prints every changed path with the same marker.
\<close>

fun git_step :: "git_cmd \<Rightarrow> repo \<Rightarrow> tree \<Rightarrow> (nat \<times> string) \<times> repo \<times> tree" where
  "git_step Init r W = ((0, ''Reinitialized existing Git repository'' @ [newline]), r, W)"
| "git_step (Config k v) r W = ((0, []), r, W)"
| "git_step (Log_oneline n) r W =
     (case head_chain r of
        [] \<Rightarrow> ((128, []), r, W)
      | (m, t) # _ \<Rightarrow> ((0, ''0000000 '' @ m @ [newline]), r, W))"
| "git_step Add_all r W = ((0, []), r\<lparr>r_index := W\<rparr>, W)"
| "git_step (Commit m) r W =
     (if tree_eq (r_index r) (head_tree r) then ((1, ''nothing to commit'' @ [newline]), r, W)
      else ((0, m @ [newline]), record_commit m r, W))"
| "git_step Status_porcelain r W = ((0, status_lines r W), r, W)"
| "git_step Status_short r W = ((0, status_lines r W), r, W)"
| "git_step (Checkout_b n) r W =
     (if map_of (r_branches r) n \<noteq> None then ((128, []), r, W)
      else ((0, []),
            (if head_chain r = [] then r\<lparr>r_head := OnBranch n\<rparr>
             else r\<lparr>r_head := OnBranch n,
                    r_branches := AList.update n (head_chain r) (r_branches r)\<rparr>),
            W))"
| "git_step (Checkout n) r W =
     (case map_of (r_branches r) n of
        None \<Rightarrow> ((1, []), r, W)
      | Some c \<Rightarrow>
          (if checkout_conflict (head_tree r) (tip_tree c) (r_index r) W then ((1, []), r, W)
           else ((0, []),
                 r\<lparr>r_head := OnBranch n,
                   r_index := switch_tree (head_tree r) (tip_tree c) (r_index r)\<rparr>,
                 switch_tree (head_tree r) (tip_tree c) W)))"
| "git_step (Branch_list n) r W =
     ((0, (case map_of (r_branches r) n of
             None \<Rightarrow> []
           | Some c \<Rightarrow> (if r_head r = OnBranch n then ''* '' else ''  '') @ n @ [newline])),
      r, W)"
| "git_step Branch_show_current r W =
     ((0, (case r_head r of OnBranch b \<Rightarrow> b @ [newline] | Detached c \<Rightarrow> [])), r, W)"
| "git_step (Branch_D n) r W =
     (if map_of (r_branches r) n = None \<or> r_head r = OnBranch n then ((1, []), r, W)
      else ((0, []), r\<lparr>r_branches := AList.delete n (r_branches r)\<rparr>, W))"
| "git_step Reset_hard r W =
     ((0, []), r\<lparr>r_index := head_tree r\<rparr>, reset_tree (head_tree r) (r_index r) W)"
| "git_step Clean_fd r W = ((0, []), r, clean_tree (r_index r) W)"
| "git_step (Diff_quiet a b) r W =
     (case (map_of (r_branches r) a, map_of (r_branches r) b) of
        (Some ca, Some cb) \<Rightarrow>
          ((if tree_eq (tip_tree ca) (tip_tree cb) then 0 else 1, []), r, W)
      | _ \<Rightarrow> ((128, []), r, W))"

text \<open>
  \<open>subprocess.run(['git', ...])\<close>: \<open>FileNotFoundError\<close> when the client is not on the path
  (nothing is started); otherwise the call is recorded, and outside a repository every
  command but \<open>init\<close> exits with status 128.
\<close>

datatype proc_result = FileNotFound | Exited nat string

definition subprocess_run :: "git_cmd \<Rightarrow> world \<Rightarrow> proc_result \<times> world" where
  "subprocess_run cmd w =
     (if \<not> git_on_path w then (FileNotFound, w)
      else
        (let w1 = w\<lparr>calls := calls w @ [cmd]\<rparr>
         in case repo w of
              None \<Rightarrow>
                (if cmd = Init
                 then (Exited 0 (''Initialized empty Git repository'' @ [newline]),
                       w1\<lparr>repo := Some \<lparr>r_head = OnBranch (default_branch w),
                                        r_branches = [], r_index = []\<rparr>\<rparr>)
                 else (Exited 128 [], w1))
            | Some r \<Rightarrow>
                (case git_step cmd r (worktree w) of
                   ((rc, out), r', W') \<Rightarrow>
                     (Exited rc out, w1\<lparr>repo := Some r', worktree := W'\<rparr>))))"

subsection \<open>Files\<close>

definition file_exists :: "path \<Rightarrow> world \<Rightarrow> bool" where
  "file_exists p w = (map_of (worktree w) p \<noteq> None)"

text \<open>\<open>read_text\<close> and \<open>write_text\<close>: \<open>None\<close> is the raised \<open>OSError\<close> or
  \<open>UnicodeError\<close>.\<close>

definition read_text :: "path \<Rightarrow> world \<Rightarrow> string option" where
  "read_text p w =
     (if p \<in> set (io_fail w) then None
      else (case map_of (worktree w) p of Some (Text s) \<Rightarrow> Some s | _ \<Rightarrow> None))"

definition write_file :: "path \<Rightarrow> content \<Rightarrow> world \<Rightarrow> world option" where
  "write_file p c w =
     (if p \<in> set (io_fail w) then None
      else Some (w\<lparr>worktree := AList.update p c (worktree w)\<rparr>))"

section \<open>The operations of the switcher\<close>

text \<open>
  \<open>run_git_command\<close> returns a string or \<open>None\<close> when it captures the output and a
  truth value when it does not; the callers test the result for truth.
\<close>

datatype py_value = PyBool bool | PyStr string | PyNone

fun truthy :: "py_value \<Rightarrow> bool" where
  "truthy (PyBool b) = b"
| "truthy (PyStr s) = (s \<noteq> [])"
| "truthy PyNone = False"

definition run_git_command :: "git_cmd \<Rightarrow> bool \<Rightarrow> world \<Rightarrow> py_value \<times> world" where
  "run_git_command args capture_output w =
     (case subprocess_run args w of
        (FileNotFound, w') \<Rightarrow> (if \<not> capture_output then PyBool False else PyNone, w')
      | (Exited returncode stdout, w') \<Rightarrow>
          (if capture_output
           then (if returncode = 0 then PyStr (strip stdout) else PyNone, w')
           else (if returncode = 0 then PyBool True else PyBool False, w')))"

definition check_git_available :: "world \<Rightarrow> bool" where
  "check_git_available w = git_on_path w"

definition get_current_branch :: "world \<Rightarrow> string \<times> world" where
  "get_current_branch w =
     (case run_git_command Branch_show_current True w of
        (v, w') \<Rightarrow> ((case v of PyStr s \<Rightarrow> (if s \<noteq> [] then s else ''main'') | _ \<Rightarrow> ''main''), w'))"

definition branch_exists :: "string \<Rightarrow> world \<Rightarrow> bool \<times> world" where
  "branch_exists branch w =
     (case run_git_command (Branch_list branch) True w of
        (result, w') \<Rightarrow>
          ((if truthy result then (case result of PyStr s \<Rightarrow> py_in branch s | _ \<Rightarrow> False)
            else False), w'))"

text \<open>
  Every operation of the source returns \<open>False\<close> after printing what went wrong. The
  model returns the kind of failure: \<open>ToolUnavailable\<close> for "Git not found",
  \<open>NotInitialized\<close> for "Not a git repo" and "doesn't exist. Run --init first",
  \<open>InvalidState\<close> for "Invalid state", \<open>CheckoutFailed\<close> for a failed creation of or
  change to a branch, \<open>StageOrCommitFailed\<close> for a failed \<open>add\<close> or \<open>commit\<close>,
  \<open>DiscardFailed\<close> for "Failed to discard changes", \<open>DegenerateBranches\<close> for "Some
  branches are identical", \<open>RepoInitFailed\<close> for a failed \<open>git init\<close>, \<open>ArchiveFailed\<close>
  for "Error creating zip", \<open>UserAborted\<close> for "Reset aborted".
\<close>

datatype error =
    ToolUnavailable
  | NotInitialized
  | InvalidState
  | CheckoutFailed
  | StageOrCommitFailed
  | DiscardFailed
  | DegenerateBranches
  | RepoInitFailed
  | ArchiveFailed
  | UserAborted

subsection \<open>\<open>initialize\<close>\<close>

text \<open>Lines 68 to 77: create the repository and set the local identity.\<close>

definition init_repository :: "world \<Rightarrow> (error + unit) \<times> world" where
  "init_repository w =
     (if repo w = None then
        (case run_git_command Init False w of
           (v, w1) \<Rightarrow>
             if \<not> truthy v then (Inl RepoInitFailed, w1)
             else
               (case run_git_command (Config ''user.name'' ''Codebase Switcher'') False w1 of
                  (n, w2) \<Rightarrow>
                    (case run_git_command
                            (Config ''user.email'' ''switcher@codebase.local'') False w2 of
                       (e, w3) \<Rightarrow> (Inr (), w3))))
      else (Inr (), w))"

definition readme_text :: "datetime \<Rightarrow> string" where
  "readme_text d =
     ''# Codebase States'' @ [newline, newline] @ ''Project Date: '' @ strftime_readme d @
     [newline]"

text \<open>Lines 82 to 89: a failed write is a warning.\<close>

definition write_readme :: "world \<Rightarrow> world" where
  "write_readme w =
     (case write_file [''README.md''] (Text (readme_text (clock w))) w of
        None \<Rightarrow> w
      | Some w' \<Rightarrow> w')"

definition switcher_entry :: string where
  "switcher_entry = ''codebase_switcher2.py''"

definition ignore_comment :: string where
  "ignore_comment =
     ''# Ignore codebase switcher script to avoid contaminating AI conversations''"

text \<open>Lines 91 to 114.\<close>

definition update_cursorignore :: "world \<Rightarrow> world" where
  "update_cursorignore w =
     (let cursorignore_path = [''.cursorignore''] in
      if file_exists cursorignore_path w then
        (case read_text cursorignore_path w of
           None \<Rightarrow> w
         | Some existing_content \<Rightarrow>
             (let existing_lines = split_on newline (strip existing_content) in
              if switcher_entry \<notin> set existing_lines then
                (case write_file cursorignore_path
                        (Text (rstrip existing_content @ [newline, newline] @ ignore_comment @
                               [newline] @ switcher_entry @ [newline])) w of
                   None \<Rightarrow> w
                 | Some w' \<Rightarrow> w')
              else w))
      else
        (case write_file cursorignore_path
                (Text (ignore_comment @ [newline] @ switcher_entry @ [newline])) w of
           None \<Rightarrow> w
         | Some w' \<Rightarrow> w'))"

text \<open>Lines 80 to 121: the initial commit, when \<open>git log\<close> shows none.\<close>

definition create_initial_commit :: "world \<Rightarrow> (error + unit) \<times> world" where
  "create_initial_commit w =
     (case run_git_command (Log_oneline 1) True w of
        (l, w1) \<Rightarrow>
          if \<not> truthy l then
            (let w2 = write_readme w1; w3 = update_cursorignore w2 in
             case run_git_command Add_all False w3 of
               (a, w4) \<Rightarrow>
                 if \<not> truthy a then (Inl StageOrCommitFailed, w4)
                 else
                   (case run_git_command (Commit ''Initial commit'') False w4 of
                      (c, w5) \<Rightarrow>
                        if \<not> truthy c then (Inl StageOrCommitFailed, w5) else (Inr (), w5)))
          else (Inr (), w1))"

text \<open>
  The auto-commit of a dirty working tree, as \<open>initialize\<close> (lines 124 to 132) and
  \<open>create_zip\<close> (lines 309 to 317) do it; \<open>message\<close> builds the commit message from
  the name of the current branch: \<open>init_message\<close> (line 130), \<open>zip_message\<close>
  (line 315).
\<close>

definition init_message :: "string \<Rightarrow> string" where
  "init_message current = ''Auto-commit on '' @ current @ '' during init''"

definition zip_message :: "string \<Rightarrow> string" where
  "zip_message current = ''Auto-commit on '' @ current @ '' before zip creation''"

definition auto_commit :: "(string \<Rightarrow> string) \<Rightarrow> world \<Rightarrow> (error + unit) \<times> world" where
  "auto_commit message w =
     (case run_git_command Status_porcelain True w of
        (s, w1) \<Rightarrow>
          if truthy s then
            (case get_current_branch w1 of
               (current, w2) \<Rightarrow>
                 (case run_git_command Add_all False w2 of
                    (a, w3) \<Rightarrow>
                      if \<not> truthy a then (Inl StageOrCommitFailed, w3)
                      else
                        (case run_git_command (Commit (message current)) False w3 of
                           (c, w4) \<Rightarrow>
                             if \<not> truthy c then (Inl StageOrCommitFailed, w4)
                             else (Inr (), w4))))
          else (Inr (), w1))"

text \<open>Lines 135 to 145.\<close>

definition ensure_preedit :: "world \<Rightarrow> (error + unit) \<times> world" where
  "ensure_preedit w =
     (case branch_exists ''preedit'' w of
        (ex, w1) \<Rightarrow>
          if \<not> ex then
            (case run_git_command (Checkout_b ''preedit'') False w1 of
               (v, w2) \<Rightarrow>
                 if \<not> truthy v then (Inl CheckoutFailed, w2)
                 else
                   (case run_git_command Status_porcelain True w2 of
                      (s, w3) \<Rightarrow>
                        if truthy s then
                          (case run_git_command (Commit ''Initialize preedit state'') False w3 of
                             (c, w4) \<Rightarrow> (Inr (), w4))
                        else (Inr (), w3)))
          else
            (case run_git_command (Checkout ''preedit'') False w1 of
               (v, w2) \<Rightarrow> if \<not> truthy v then (Inl CheckoutFailed, w2) else (Inr (), w2)))"

text \<open>Lines 148 to 156: the loop over the two edit variants.\<close>

fun create_variants :: "string list \<Rightarrow> world \<Rightarrow> (error + unit) \<times> world" where
  "create_variants [] w = (Inr (), w)"
| "create_variants (state # rest) w =
     (case branch_exists state w of
        (ex, w1) \<Rightarrow>
          if \<not> ex then
            (case run_git_command (Checkout_b state) False w1 of
               (v, w2) \<Rightarrow>
                 if \<not> truthy v then (Inl CheckoutFailed, w2)
                 else
                   (case run_git_command (Checkout ''preedit'') False w2 of
                      (v', w3) \<Rightarrow>
                        if \<not> truthy v' then (Inl CheckoutFailed, w3)
                        else create_variants rest w3))
          else create_variants rest w1)"

text \<open>Lines 134 to 160: \<open>preedit\<close>, then the two edit variants, then back to \<open>preedit\<close>.\<close>

definition create_branches :: "world \<Rightarrow> (error + unit) \<times> world" where
  "create_branches w =
     (case ensure_preedit w of
        (Inl e, w4) \<Rightarrow> (Inl e, w4)
      | (Inr u4, w4) \<Rightarrow>
          (case create_variants [''gpt'', ''sonnet''] w4 of
             (Inl e, w5) \<Rightarrow> (Inl e, w5)
           | (Inr u5, w5) \<Rightarrow>
               (case run_git_command (Checkout ''preedit'') False w5 of
                  (v, w6) \<Rightarrow>
                    if \<not> truthy v then (Inl CheckoutFailed, w6) else (Inr (), w6))))"

definition initialize :: "switcher \<Rightarrow> world \<Rightarrow> (error + unit) \<times> world" where
  "initialize self w =
     (if \<not> check_git_available w then (Inl ToolUnavailable, w)
      else
        (case init_repository w of
           (Inl e, w1) \<Rightarrow> (Inl e, w1)
         | (Inr u1, w1) \<Rightarrow>
        (case create_initial_commit w1 of
           (Inl e, w2) \<Rightarrow> (Inl e, w2)
         | (Inr u2, w2) \<Rightarrow>
        (case auto_commit init_message w2 of
           (Inl e, w3) \<Rightarrow> (Inl e, w3)
         | (Inr u3, w3) \<Rightarrow>
        create_branches w3))))"

subsection \<open>\<open>switch_state\<close>\<close>

text \<open>Lines 189 to 208: what happens to a dirty working tree before the checkout.\<close>

definition handle_changes :: "string \<Rightarrow> string \<Rightarrow> world \<Rightarrow> (error + unit) \<times> world" where
  "handle_changes current state w =
     (case run_git_command Status_porcelain True w of
        (s, w1) \<Rightarrow>
          if truthy s then
            (if current = ''preedit'' \<and> state = ''gpt'' then
               (case run_git_command Reset_hard False w1 of
                  (r, w2) \<Rightarrow>
                    if \<not> truthy r then (Inl DiscardFailed, w2)
                    else (case run_git_command Clean_fd False w2 of
                            (c, w3) \<Rightarrow> (Inr (), w3)))
             else
               (case run_git_command Add_all False w1 of
                  (a, w2) \<Rightarrow>
                    if \<not> truthy a then (Inl StageOrCommitFailed, w2)
                    else
                      (case run_git_command
                              (Commit (''Auto-commit from '' @ current @
                                       '' before switching to '' @ state)) False w2 of
                         (c, w3) \<Rightarrow>
                           if \<not> truthy c then (Inl StageOrCommitFailed, w3)
                           else (case run_git_command Clean_fd False w3 of
                                   (d, w4) \<Rightarrow> (Inr (), w4)))))
          else (Inr (), w1))"

definition switch_state :: "switcher \<Rightarrow> string \<Rightarrow> world \<Rightarrow> (error + unit) \<times> world" where
  "switch_state self state w =
     (if state \<notin> set [''gpt'', ''sonnet''] then (Inl InvalidState, w)
      else if \<not> check_git_available w then (Inl ToolUnavailable, w)
      else if repo w = None then (Inl NotInitialized, w)
      else
        (case branch_exists state w of
           (ex, w1) \<Rightarrow>
             if \<not> ex then (Inl NotInitialized, w1)
             else
               (case get_current_branch w1 of
                  (current, w2) \<Rightarrow>
                    if current = state then (Inr (), w2)
                    else
                      (case handle_changes current state w2 of
                         (Inl e, w3) \<Rightarrow> (Inl e, w3)
                       | (Inr u, w3) \<Rightarrow>
                           (case run_git_command (Checkout state) False w3 of
                              (v, w4) \<Rightarrow>
                                if truthy v then (Inr (), w4)
                                else (Inl CheckoutFailed, w4))))))"

subsection \<open>\<open>cleanup_switcher_branches\<close>\<close>

text \<open>Line 242: the first of \<open>main\<close>, \<open>master\<close> that exists; the generator stops asking at
  the first hit.\<close>

fun find_safe_branch :: "string list \<Rightarrow> world \<Rightarrow> string option \<times> world" where
  "find_safe_branch [] w = (None, w)"
| "find_safe_branch (b # bs) w =
     (case branch_exists b w of
        (ex, w1) \<Rightarrow> if ex then (Some b, w1) else find_safe_branch bs w1)"

text \<open>Lines 256 to 259: the result of \<open>branch -D\<close> is not looked at.\<close>

fun delete_branches :: "string list \<Rightarrow> world \<Rightarrow> world" where
  "delete_branches [] w = w"
| "delete_branches (state # rest) w =
     (case branch_exists state w of
        (ex, w1) \<Rightarrow>
          if ex then
            (case run_git_command (Branch_D state) False w1 of
               (d, w2) \<Rightarrow> delete_branches rest w2)
          else delete_branches rest w1)"

definition cleanup_switcher_branches :: "switcher \<Rightarrow> world \<Rightarrow> (error + unit) \<times> world" where
  "cleanup_switcher_branches self w =
     (case get_current_branch w of
        (current, w1) \<Rightarrow>
          (case find_safe_branch [''main'', ''master''] w1 of
             (None, w2) \<Rightarrow>
               (case run_git_command (Checkout_b ''main'') False w2 of
                  (v, w3) \<Rightarrow>
                    if \<not> truthy v then (Inl CheckoutFailed, w3)
                    else (Inr (), delete_branches (states self) w3))
           | (Some safe_branch, w2) \<Rightarrow>
               if current \<in> set (states self) then
                 (case run_git_command (Checkout safe_branch) False w2 of
                    (v, w3) \<Rightarrow>
                      if \<not> truthy v then (Inl CheckoutFailed, w3)
                      else (Inr (), delete_branches (states self) w3))
               else (Inr (), delete_branches (states self) w2)))"

subsection \<open>\<open>verify_branches_different\<close> and \<open>create_zip\<close>\<close>

text \<open>Lines 268 to 271: the loop returns at the first missing branch.\<close>

fun all_branches_exist :: "string list \<Rightarrow> world \<Rightarrow> bool \<times> world" where
  "all_branches_exist [] w = (True, w)"
| "all_branches_exist (state # rest) w =
     (case branch_exists state w of
        (ex, w1) \<Rightarrow> if \<not> ex then (False, w1) else all_branches_exist rest w1)"

text \<open>Lines 279 to 288: \<open>git diff --quiet\<close> on each pair, run directly; \<open>None\<close> is the
  return on \<open>FileNotFoundError\<close>.\<close>

fun identical_pairs ::
  "(string \<times> string) list \<Rightarrow> world \<Rightarrow> (string \<times> string) list option \<times> world" where
  "identical_pairs [] w = (Some [], w)"
| "identical_pairs ((branch1, branch2) # rest) w =
     (case subprocess_run (Diff_quiet branch1 branch2) w of
        (FileNotFound, w1) \<Rightarrow> (None, w1)
      | (Exited returncode out, w1) \<Rightarrow>
          (case identical_pairs rest w1 of
             (None, w2) \<Rightarrow> (None, w2)
           | (Some found, w2) \<Rightarrow>
               (Some (if returncode = 0 then (branch1, branch2) # found else found), w2)))"

definition branch_pairs :: "(string \<times> string) list" where
  "branch_pairs = [(''preedit'', ''gpt''), (''preedit'', ''sonnet''), (''gpt'', ''sonnet'')]"

definition verify_branches_different :: "switcher \<Rightarrow> world \<Rightarrow> (error + unit) \<times> world" where
  "verify_branches_different self w =
     (case all_branches_exist (states self) w of
        (ok, w1) \<Rightarrow>
          if \<not> ok then (Inl NotInitialized, w1)
          else
            (case identical_pairs branch_pairs w1 of
               (None, w2) \<Rightarrow> (Inl ToolUnavailable, w2)
             | (Some found, w2) \<Rightarrow>
                 if found \<noteq> [] then (Inl DegenerateBranches, w2) else (Inr (), w2)))"

text \<open>
  \<open>current_dir.rglob('*')\<close>: every regular file of the working directory, the
  directories above them, and the metadata store, which the model shows as the
  directory \<open>.git\<close> with its \<open>HEAD\<close> file. A directory has no content.
\<close>

fun dir_prefixes :: "path \<Rightarrow> path list" where
  "dir_prefixes [] = []"
| "dir_prefixes [x] = []"
| "dir_prefixes (x # y # ys) = [x] # map ((#) x) (dir_prefixes (y # ys))"

definition head_file :: "repo \<Rightarrow> string" where
  "head_file r =
     (case r_head r of
        OnBranch b \<Rightarrow> ''ref: refs/heads/'' @ b @ [newline]
      | Detached c \<Rightarrow> ''0000000'' @ [newline])"

definition rglob :: "world \<Rightarrow> (path \<times> content option) list" where
  "rglob w =
     map (\<lambda>(p, c). (p, Some c)) (worktree w) @
     map (\<lambda>d. (d, None)) (remdups (concat (map (\<lambda>(p, c). dir_prefixes p) (worktree w)))) @
     (case repo w of
        None \<Rightarrow> []
      | Some r \<Rightarrow> [([''.git''], None), ([''.git'', ''HEAD''], Some (Text (head_file r)))])"

text \<open>Lines 335 to 354: the members written to the archive, in the order of the walk.
  \<open>bad\<close> are the paths whose read raises \<open>OSError\<close>.\<close>

fun zip_walk ::
  "switcher \<Rightarrow> string \<Rightarrow> path list \<Rightarrow> (path \<times> content option) list \<Rightarrow> (string \<times> content) list"
where
  "zip_walk self zip_name bad [] = []"
| "zip_walk self zip_name bad ((rel_path, node) # rest) =
     (case node of
        None \<Rightarrow> zip_walk self zip_name bad rest
      | Some c \<Rightarrow>
          if path_name rel_path = zip_name \<or> path_name rel_path \<in> set (script_files self)
          then zip_walk self zip_name bad rest
          else if should_exclude self rel_path then zip_walk self zip_name bad rest
          else if rel_path \<in> set bad then zip_walk self zip_name bad rest
          else (path_str rel_path, c) # zip_walk self zip_name bad rest)"

definition zip_name_of :: "world \<Rightarrow> string" where
  "zip_name_of w = ''codebase_'' @ dir_name w @ ''_'' @ strftime_stamp (clock w) @ ''.zip''"

text \<open>
  Lines 322 to 371. Opening the archive for writing creates it empty (a failure there is
  the outer \<open>except\<close>, and nothing was written); the walk then sees it; closing it
  gives it its members. The result of the cleanup is not looked at.
\<close>

definition write_archive :: "switcher \<Rightarrow> world \<Rightarrow> (error + unit) \<times> world" where
  "write_archive self w =
     (let zip_name = zip_name_of w in
      case write_file [zip_name] (Zip []) w of
        None \<Rightarrow> (Inl ArchiveFailed, w)
      | Some w1 \<Rightarrow>
          (let members = zip_walk self zip_name (io_fail w1) (rglob w1);
               w2 = w1\<lparr>worktree := AList.update [zip_name] (Zip members) (worktree w1)\<rparr>
           in case cleanup_switcher_branches self w2 of
                (r, w3) \<Rightarrow> (Inr (), w3)))"

definition create_zip :: "switcher \<Rightarrow> world \<Rightarrow> (error + unit) \<times> world" where
  "create_zip self w =
     (if \<not> check_git_available w then (Inl ToolUnavailable, w)
      else if repo w = None then (Inl NotInitialized, w)
      else
        (case auto_commit zip_message w of
           (Inl e, w1) \<Rightarrow> (Inl e, w1)
         | (Inr u, w1) \<Rightarrow>
             (case verify_branches_different self w1 of
                (Inl e, w2) \<Rightarrow> (Inl e, w2)
              | (Inr u', w2) \<Rightarrow> write_archive self w2)))"

subsection \<open>\<open>reset_to_initial_state\<close>\<close>

text \<open>\<open>response\<close> is the line that \<open>input\<close> returns.\<close>

definition reset_to_initial_state ::
  "switcher \<Rightarrow> string \<Rightarrow> world \<Rightarrow> (error + unit) \<times> world" where
  "reset_to_initial_state self response w =
     (let confirm = lower (strip response) in
      if confirm \<noteq> ''y'' then (Inl UserAborted, w)
      else if \<not> check_git_available w then (Inl ToolUnavailable, w)
      else if repo w = None then (Inl NotInitialized, w)
      else
        (case run_git_command Clean_fd False w of
           (c, w1) \<Rightarrow> cleanup_switcher_branches self w1))"

section \<open>Notions the statements use\<close>

text \<open>A branch name as the client accepts it: not empty, no white space.\<close>

definition ref_name :: "string \<Rightarrow> bool" where
  "ref_name b = (b \<noteq> [] \<and> list_all (\<lambda>c. \<not> is_space c) b)"

text \<open>A dirty working tree: the files of the working directory differ from the tree of
  the commit that is checked out (modified, deleted or untracked files).\<close>

definition dirty :: "world \<Rightarrow> bool" where
  "dirty w = (case repo w of None \<Rightarrow> False | Some r \<Rightarrow> \<not> tree_eq (worktree w) (head_tree r))"

text \<open>The message of the auto-commit that \<open>switch_state\<close> makes (line 204).\<close>

definition switch_message :: "string \<Rightarrow> string \<Rightarrow> string" where
  "switch_message current state =
     ''Auto-commit from '' @ current @ '' before switching to '' @ state"

text \<open>Nothing staged and nothing changed: \<open>git status\<close> prints nothing.\<close>

definition clean_state :: "repo \<Rightarrow> tree \<Rightarrow> bool" where
  "clean_state r W = (tree_eq (r_index r) (head_tree r) \<and> tree_eq W (r_index r))"

text \<open>What \<open>get_current_branch\<close> returns in a repository: the name of the branch, or
  \<open>main\<close> when the head is detached.\<close>

definition current_name :: "repo \<Rightarrow> string" where
  "current_name r =
     (case r_head r of
        OnBranch b \<Rightarrow> (if strip (b @ [newline]) \<noteq> [] then strip (b @ [newline]) else ''main'')
      | Detached c \<Rightarrow> ''main'')"

text \<open>The head is on a branch with a well-formed name, or detached.\<close>

definition head_ok :: "repo \<Rightarrow> bool" where
  "head_ok r = (case r_head r of OnBranch b \<Rightarrow> ref_name b | Detached c \<Rightarrow> True)"

text \<open>The tips of two branches hold the same tree: \<open>git diff --quiet a b\<close> exits
  with 0.\<close>

definition same_tip :: "repo \<Rightarrow> string \<times> string \<Rightarrow> bool" where
  "same_tip r = (\<lambda>(a, b).
     case (map_of (r_branches r) a, map_of (r_branches r) b) of
       (Some ca, Some cb) \<Rightarrow> tree_eq (tip_tree ca) (tip_tree cb)
     | _ \<Rightarrow> False)"

text \<open>The repository once \<open>create_zip\<close> has made its auto-commit: as it was when
  nothing had changed, else with the working files committed where the head is.\<close>

definition committed_repo :: "repo \<Rightarrow> tree \<Rightarrow> repo" where
  "committed_repo r W =
     (if clean_state r W then r
      else record_commit (zip_message (current_name r)) (r\<lparr>r_index := W\<rparr>))"

text \<open>The trunk that the cleanup finds, the branch it ends on when it starts on \<open>b\<close>,
  and whether the tip of a branch has a file at a path.\<close>

definition first_trunk :: "repo \<Rightarrow> string option" where
  "first_trunk r =
     (if map_of (r_branches r) ''main'' \<noteq> None then Some ''main''
      else if map_of (r_branches r) ''master'' \<noteq> None then Some ''master''
      else None)"

definition landing :: "switcher \<Rightarrow> repo \<Rightarrow> string \<Rightarrow> string" where
  "landing self r b =
     (case first_trunk r of
        None \<Rightarrow> ''main''
      | Some t \<Rightarrow> if b \<in> set (states self) then t else b)"

definition tracks :: "repo \<Rightarrow> string \<Rightarrow> path \<Rightarrow> bool" where
  "tracks r t p =
     (case map_of (r_branches r) t of None \<Rightarrow> False | Some c \<Rightarrow> map_of (tip_tree c) p \<noteq> None)"

text \<open>The working files once \<open>initialize\<close> has written the marker file and brought
  the ignore list up to date (lines 82 to 114).\<close>

definition seeded_tree :: "world \<Rightarrow> tree" where
  "seeded_tree w = worktree (update_cursorignore (write_readme w))"

text \<open>The repository that \<open>git init\<close> creates.\<close>

definition fresh_repo :: "world \<Rightarrow> repo" where
  "fresh_repo w = \<lparr>r_head = OnBranch (default_branch w), r_branches = [], r_index = []\<rparr>"

text \<open>Every branch has at least one commit; every branch has the tree of the head
  commit.\<close>

definition wf_repo :: "repo \<Rightarrow> bool" where
  "wf_repo r = list_all (\<lambda>(b, c). c \<noteq> []) (r_branches r)"

definition uniform :: "repo \<Rightarrow> bool" where
  "uniform r = list_all (\<lambda>(b, c). tree_eq (tip_tree c) (head_tree r)) (r_branches r)"

text \<open>The state in which \<open>initialize\<close> turns to the branches: there is a commit and
  nothing to commit. \<open>on_preedit\<close>: the head is on an existing \<open>preedit\<close>. \<open>settled\<close>:
  what a finished initialization leaves.\<close>

definition ready :: "repo \<Rightarrow> tree \<Rightarrow> bool" where
  "ready r W = (wf_repo r \<and> head_chain r \<noteq> [] \<and> clean_state r W)"

definition on_preedit :: "repo \<Rightarrow> bool" where
  "on_preedit r = (r_head r = OnBranch ''preedit'' \<and> map_of (r_branches r) ''preedit'' \<noteq> None)"

definition settled :: "repo \<Rightarrow> tree \<Rightarrow> bool" where
  "settled r W =
     (ready r W \<and> on_preedit r \<and> map_of (r_branches r) ''gpt'' \<noteq> None \<and>
      map_of (r_branches r) ''sonnet'' \<noteq> None)"

text \<open>The lines of the ignore list as \<open>initialize\<close> reads them (line 97), the number of
  them that are the entry of the switcher script, the text of the ignore-list file in a
  tree, and the text that line 100 builds from the existing one.\<close>

definition entry_lines :: "string \<Rightarrow> string list" where
  "entry_lines s = split_on newline (strip s)"

definition entry_count :: "string \<Rightarrow> nat" where
  "entry_count s = count_list (entry_lines s) switcher_entry"

definition cursorignore_text :: "tree \<Rightarrow> string option" where
  "cursorignore_text W =
     (case map_of W [''.cursorignore''] of Some (Text s) \<Rightarrow> Some s | _ \<Rightarrow> None)"

definition appended_entry :: "string \<Rightarrow> string" where
  "appended_entry s =
     rstrip s @ [newline, newline] @ ignore_comment @ [newline] @ switcher_entry @ [newline]"

text \<open>No repository yet, or one without branches and commits.\<close>

definition no_commits :: "world \<Rightarrow> bool" where
  "no_commits w =
     (case repo w of None \<Rightarrow> True | Some r \<Rightarrow> r_branches r = [] \<and> head_chain r = [])"

subsection \<open>Example worlds\<close>

definition base_tree :: tree where
  "base_tree = [([''app.py''], Text ''print(1)'')]"

definition edited_tree :: tree where
  "edited_tree = [([''app.py''], Text ''print(2)''), ([''notes.txt''], Text ''todo'')]"

definition example_clock :: datetime where
  "example_clock =
     \<lparr>dt_year = 2024, dt_month = 5, dt_day = 7, dt_hour = 9, dt_minute = 3, dt_second = 1\<rparr>"

text \<open>A directory without a repository.\<close>

definition fresh_world :: world where
  "fresh_world =
     \<lparr> git_on_path = True, repo = None, worktree = base_tree, io_fail = [],
       clock = example_clock, dir_name = ''proj'', default_branch = ''main'', calls = [] \<rparr>"

text \<open>An initialised repository on branch \<open>b\<close> with working files \<open>W\<close>: the trunk and the
  three managed branches all at the initial commit.\<close>

definition example_repo :: "string \<Rightarrow> repo" where
  "example_repo b =
     \<lparr> r_head = OnBranch b,
       r_branches = [(''main'', [(''Initial commit'', base_tree)]),
                     (''preedit'', [(''Initial commit'', base_tree)]),
                     (''gpt'', [(''Initial commit'', base_tree)]),
                     (''sonnet'', [(''Initial commit'', base_tree)])],
       r_index = base_tree \<rparr>"

definition example_world :: "string \<Rightarrow> tree \<Rightarrow> world" where
  "example_world b W =
     \<lparr> git_on_path = True, repo = Some (example_repo b), worktree = W, io_fail = [],
       clock = example_clock, dir_name = ''proj'', default_branch = ''main'', calls = [] \<rparr>"

text \<open>The usual state before an archive: \<open>gpt\<close> was edited and committed by the switch
  to \<open>sonnet\<close>, \<open>sonnet\<close> is checked out, still at the initial commit, and edited.\<close>

definition gpt_tree :: tree where
  "gpt_tree = [([''app.py''], Text ''print(2)'')]"

definition sonnet_tree :: tree where
  "sonnet_tree = [([''app.py''], Text ''print(3)'')]"

definition midway_repo :: repo where
  "midway_repo =
     \<lparr> r_head = OnBranch ''sonnet'',
       r_branches = [(''main'', [(''Initial commit'', base_tree)]),
                     (''preedit'', [(''Initial commit'', base_tree)]),
                     (''gpt'', [(''Auto-commit from gpt before switching to sonnet'', gpt_tree),
                                (''Initial commit'', base_tree)]),
                     (''sonnet'', [(''Initial commit'', base_tree)])],
       r_index = base_tree \<rparr>"

definition midway_world :: world where
  "midway_world =
     \<lparr> git_on_path = True, repo = Some midway_repo, worktree = sonnet_tree, io_fail = [],
       clock = example_clock, dir_name = ''proj'', default_branch = ''main'', calls = [] \<rparr>"

text \<open>Three distinct managed branches, and the user on a branch of their own.\<close>

definition feature_repo :: repo where
  "feature_repo =
     \<lparr> r_head = OnBranch ''feature'',
       r_branches = [(''main'', [(''Initial commit'', base_tree)]),
                     (''feature'', [(''Initial commit'', base_tree)]),
                     (''preedit'', [(''Initial commit'', base_tree)]),
                     (''gpt'', [(''Edit by gpt'', gpt_tree), (''Initial commit'', base_tree)]),
                     (''sonnet'', [(''Edit by sonnet'', sonnet_tree),
                                   (''Initial commit'', base_tree)])],
       r_index = base_tree \<rparr>"

definition feature_world :: world where
  "feature_world =
     \<lparr> git_on_path = True, repo = Some feature_repo, worktree = base_tree, io_fail = [],
       clock = example_clock, dir_name = ''proj'', default_branch = ''main'', calls = [] \<rparr>"

text \<open>What a walk of a working directory may meet after the first files: the archive
  being written, the switcher script, an old script, excluded paths, a file that cannot
  be read, and the metadata store.\<close>

definition walk_tail :: "(path \<times> content option) list" where
  "walk_tail =
     [([''codebase_proj_20240507_090301.zip''], Some (Zip [])),
      ([''codebase_switcher2.py''], Some (Text ''import argparse'')),
      ([''tools'', ''switch.py''], Some (Text ''old'')),
      ([''node_modules'', ''left-pad'', ''index.js''], Some (Text ''pad'')),
      ([''secrets'', ''prod.env''], Some (Text ''KEY=1'')),
      ([''data'', ''locked.bin''], Some (Text ''raw'')),
      ([''.git'', ''HEAD''], Some (Text ''ref: refs/heads/gpt''))]"

text \<open>A repository of the user's own, with one commit on \<open>main\<close>.\<close>

definition plain_world :: world where
  "plain_world =
     \<lparr> git_on_path = True,
       repo = Some \<lparr> r_head = OnBranch ''main'',
                     r_branches = [(''main'', [(''First version'', base_tree)])],
                     r_index = base_tree \<rparr>,
       worktree = base_tree, io_fail = [], clock = example_clock, dir_name = ''proj'',
       default_branch = ''main'', calls = [] \<rparr>"

section \<open>Exclusion patterns\<close>

lemma fnmatch_refl_plain:
  "CHR ''*'' \<notin> set s \<Longrightarrow> CHR ''?'' \<notin> set s \<Longrightarrow> fnmatch s s"
  by (induction s) auto

lemma exclude_loop_iff:
  "exclude_loop pats p \<longleftrightarrow>
     (\<exists>pat \<in> set pats. fnmatch (path_str p) pat \<or> (\<exists>part \<in> set p. fnmatch part pat))"
  by (induction pats) (auto simp: list_ex_iff)

lemma fnmatch_star_all: "fnmatch s ''*''"
  by (induction s) auto

text \<open>
  Claim C8. The full relative path \<open>build/output.zip\<close> matches \<open>*.zip\<close> although the
  pattern has no separator, so the file is excluded whenever \<open>*.zip\<close> is among the
  patterns; and a path with a segment named \<open>target\<close>, at any depth, is excluded
  whenever the bare pattern \<open>target\<close> is among the patterns.
\<close>

theorem exclusion_patterns:
  "fnmatch (path_str [''build'', ''output.zip'']) ''*.zip'' \<and>
   (''*.zip'' \<in> set (zip_exclude_patterns self) \<longrightarrow>
      should_exclude self [''build'', ''output.zip'']) \<and>
   (''target'' \<in> set (zip_exclude_patterns self) \<and> ''target'' \<in> set rel_path \<longrightarrow>
      should_exclude self rel_path)"
proof (intro conjI impI)
  show m: "fnmatch (path_str [''build'', ''output.zip'']) ''*.zip''"
    by (simp add: path_str_def)
  show "should_exclude self [''build'', ''output.zip'']"
    if "''*.zip'' \<in> set (zip_exclude_patterns self)"
    unfolding should_exclude_def exclude_loop_iff using that m by blast
  show "should_exclude self rel_path"
    if "''target'' \<in> set (zip_exclude_patterns self) \<and> ''target'' \<in> set rel_path"
  proof -
    have "fnmatch ''target'' ''target''" by simp
    with that show ?thesis
      unfolding should_exclude_def exclude_loop_iff by blast
  qed
qed

theorem exclusion_patterns_witness:
  "should_exclude CodebaseSwitcher [''build'', ''output.zip''] \<and>
   should_exclude CodebaseSwitcher
     [''services'', ''api'', ''target'', ''classes'', ''Main.class'']"
  using exclusion_patterns
    [of CodebaseSwitcher "[''services'', ''api'', ''target'', ''classes'', ''Main.class'']"]
  by (simp add: CodebaseSwitcher_def)

section \<open>Trees, output of the client, single commands\<close>

lemma map_of_eq_None_fst: "p \<notin> fst ` set t \<Longrightarrow> map_of t p = None"
  by (simp add: map_of_eq_None_iff)

lemma tree_eq_iff: "tree_eq a b \<longleftrightarrow> map_of a = map_of b"
proof
  assume h: "tree_eq a b"
  show "map_of a = map_of b"
  proof
    fix p
    show "map_of a p = map_of b p"
    proof (cases "p \<in> fst ` set a \<union> fst ` set b")
      case True
      with h show ?thesis by (auto simp: tree_eq_def list_all_iff)
    next
      case False
      then show ?thesis by (simp add: map_of_eq_None_fst)
    qed
  qed
next
  assume "map_of a = map_of b"
  then show "tree_eq a b" by (simp add: tree_eq_def list_all_iff)
qed

lemma map_of_map_filter_keys:
  "distinct ks \<Longrightarrow>
     map_of (List.map_filter (\<lambda>p. map_option (Pair p) (f p)) ks) p =
       (if p \<in> set ks then f p else None)"
proof (induction ks)
  case Nil
  then show ?case by (simp add: map_filter_simps)
next
  case (Cons k ks)
  then show ?case by (cases "f k") (auto simp: map_filter_simps)
qed

lemma map_of_switch_tree:
  "map_of (switch_tree H T X) p = (if map_of H p = map_of T p then map_of X p else map_of T p)"
  unfolding switch_tree_def
  by (auto simp: map_of_map_filter_keys map_of_eq_None_fst)

lemma map_of_reset_tree:
  "map_of (reset_tree H I W) p =
     (if map_of I p \<noteq> None \<or> map_of H p \<noteq> None then map_of H p else map_of W p)"
  unfolding reset_tree_def
  by (auto simp: map_of_map_filter_keys map_of_eq_None_fst)

lemma map_of_clean_tree:
  "map_of (clean_tree I W) p = (if map_of I p \<noteq> None then map_of W p else None)"
  unfolding clean_tree_def by (induction W) auto

lemma checkout_conflict_iff:
  "checkout_conflict H T I W \<longleftrightarrow>
     (\<exists>p. map_of H p \<noteq> map_of T p \<and> (map_of I p \<noteq> map_of H p \<or> map_of W p \<noteq> map_of I p))"
  (is "?l \<longleftrightarrow> ?r")
proof
  assume ?l then show ?r by (auto simp: checkout_conflict_def list_ex_iff)
next
  assume ?r
  then obtain p where p: "map_of H p \<noteq> map_of T p"
    "map_of I p \<noteq> map_of H p \<or> map_of W p \<noteq> map_of I p" by blast
  from p(1) have "p \<in> fst ` set H \<union> fst ` set T"
    by (metis UnI1 UnI2 map_of_eq_None_iff)
  with p show ?l by (auto simp: checkout_conflict_def list_ex_iff)
qed

lemma changed_paths_Nil_iff:
  "changed_paths r W = [] \<longleftrightarrow>
     map_of (r_index r) = map_of (head_tree r) \<and> map_of W = map_of (r_index r)"
  (is "?l \<longleftrightarrow> ?r")
proof
  assume l: ?l
  have a: "map_of (r_index r) p = map_of (head_tree r) p \<and> map_of W p = map_of (r_index r) p" for p
  proof (cases "p \<in> fst ` set (head_tree r) \<union> fst ` set (r_index r) \<union> fst ` set W")
    case True
    with l show ?thesis by (auto simp: changed_paths_def filter_empty_conv)
  next
    case False
    then show ?thesis by (simp add: map_of_eq_None_fst)
  qed
  show ?r by (rule conjI; rule ext) (simp_all add: a)
next
  assume ?r then show ?l by (simp add: changed_paths_def filter_empty_conv)
qed

lemma strip_nonspace_ends:
  "s \<noteq> [] \<Longrightarrow> \<not> is_space (hd s) \<Longrightarrow> \<not> is_space (last s) \<Longrightarrow> strip s = s"
proof -
  assume a: "s \<noteq> []" "\<not> is_space (hd s)" "\<not> is_space (last s)"
  have "dropWhile is_space (rev s) = rev s"
    using a by (cases "rev s") (auto simp: last_rev hd_rev)
  then have "rstrip s = s" by (simp add: rstrip_def)
  moreover have "dropWhile is_space s = s" using a by (cases s) auto
  ultimately show ?thesis by (simp add: strip_def lstrip_def)
qed

lemma rstrip_snoc_space: "is_space c \<Longrightarrow> rstrip (s @ [c]) = rstrip s"
  by (simp add: rstrip_def)

lemma is_space_newline [simp]: "is_space newline"
  by (simp add: is_space_def newline_def)

lemma strip_line:
  "s \<noteq> [] \<Longrightarrow> \<not> is_space (hd s) \<Longrightarrow> \<not> is_space (last s) \<Longrightarrow> strip (s @ [newline]) = s"
  using strip_nonspace_ends[of s]
  by (simp add: strip_def rstrip_snoc_space)

lemma strip_status_lines:
  "strip (status_lines r W) \<noteq> [] \<longleftrightarrow> changed_paths r W \<noteq> []"
proof (cases "changed_paths r W")
  case Nil
  then show ?thesis by (simp add: status_lines_def strip_def rstrip_def lstrip_def)
next
  case (Cons p ps)
  then obtain t where t: "status_lines r W = CHR ''M'' # t"
    by (auto simp: status_lines_def)
  have ns: "\<not> is_space (CHR ''M'')" by (simp add: is_space_def)
  have "rstrip (CHR ''M'' # t) \<noteq> []"
  proof -
    have "\<exists>x\<in>set (rev (CHR ''M'' # t)). \<not> is_space x" using ns by auto
    then have "dropWhile is_space (rev (CHR ''M'' # t)) \<noteq> []"
      by (simp only: dropWhile_eq_Nil_conv) blast
    then show ?thesis by (simp add: rstrip_def)
  qed
  moreover have "hd (rstrip (CHR ''M'' # t)) = CHR ''M''"
  proof -
    have "last (dropWhile is_space (rev (CHR ''M'' # t))) = CHR ''M''"
      using ns by (induction t rule: rev_induct) (auto)
    then show ?thesis
      using calculation by (simp add: rstrip_def hd_rev)
  qed
  ultimately have "strip (CHR ''M'' # t) \<noteq> []"
    using ns by (cases "rstrip (CHR ''M'' # t)") (auto simp: strip_def lstrip_def)
  with t Cons show ?thesis by simp
qed

lemma world_repo_same: "repo w = Some r \<Longrightarrow> w\<lparr>repo := Some r\<rparr> = w"
  by (cases w) simp

lemma run_git_in_repo:
  "git_on_path w \<Longrightarrow> repo w = Some r \<Longrightarrow>
   run_git_command cmd cap w =
     (case git_step cmd r (worktree w) of
        ((rc, out), r', W') \<Rightarrow>
          ((if cap then (if rc = 0 then PyStr (strip out) else PyNone) else PyBool (rc = 0)),
           w\<lparr>calls := calls w @ [cmd], repo := Some r', worktree := W'\<rparr>))"
  by (auto simp: run_git_command_def subprocess_run_def Let_def split: prod.splits)

lemma ref_name_ends: "ref_name b \<Longrightarrow> b \<noteq> [] \<and> \<not> is_space (hd b) \<and> \<not> is_space (last b)"
  by (cases b) (auto simp: ref_name_def list_all_iff)

lemma strip_ref_line: "ref_name b \<Longrightarrow> strip (b @ [newline]) = b"
  using ref_name_ends[of b] by (simp add: strip_line)

lemma strip_Nil: "strip [] = []"
  by (simp add: strip_def lstrip_def rstrip_def)

lemma strip_star_line:
  "ref_name b \<Longrightarrow> strip (CHR ''*'' # CHR '' '' # b @ [newline]) = CHR ''*'' # CHR '' '' # b"
  using ref_name_ends[of b] strip_line[of "''* '' @ b"] by (simp add: is_space_def)

lemma strip_indent_line:
  "ref_name b \<Longrightarrow> strip (CHR '' '' # CHR '' '' # b @ [newline]) = b"
proof -
  assume r: "ref_name b"
  have sp: "is_space (CHR '' '')" by (simp add: is_space_def)
  have "rstrip (CHR '' '' # CHR '' '' # b @ [newline]) = CHR '' '' # CHR '' '' # rstrip b"
    using ref_name_ends[OF r]
    by (cases "rev b") (auto simp: rstrip_def last_rev)
  moreover have "rstrip b = b"
    using ref_name_ends[OF r] by (cases "rev b") (auto simp: rstrip_def last_rev)
  ultimately show ?thesis
    using ref_name_ends[OF r] sp by (cases b) (auto simp: strip_def lstrip_def)
qed

lemma starts_with_append: "starts_with a (a @ t)"
  by (induction a) auto

lemma py_in_append: "py_in a (x @ a)"
proof (induction x)
  case Nil
  show ?case using starts_with_append[of a "[]"] by (cases a) auto
next
  case (Cons y ys)
  then show ?case by simp
qed

lemma py_in_self: "py_in a a"
  using py_in_append[of a "[]"] by simp

lemma branch_exists_in_repo:
  assumes "git_on_path w" "repo w = Some r" "ref_name b"
  shows "branch_exists b w =
           (map_of (r_branches r) b \<noteq> None, w\<lparr>calls := calls w @ [Branch_list b]\<rparr>)"
proof -
  have ne: "b \<noteq> []" using assms(3) by (simp add: ref_name_def)
  show ?thesis
    using ne py_in_append[of b "''* ''"] py_in_self[of b]
    by (auto simp: branch_exists_def run_git_in_repo[OF assms(1,2)]
        strip_star_line[OF assms(3)] strip_indent_line[OF assms(3)] strip_Nil
        world_repo_same assms(2) split: option.splits)
qed

lemma get_current_branch_in_repo:
  assumes "git_on_path w" "repo w = Some r"
  shows "get_current_branch w =
           ((case r_head r of OnBranch b \<Rightarrow> (if strip (b @ [newline]) \<noteq> [] then strip (b @ [newline]) else ''main'')
             | Detached c \<Rightarrow> ''main''),
            w\<lparr>calls := calls w @ [Branch_show_current]\<rparr>)"
  by (auto simp: get_current_branch_def run_git_in_repo[OF assms] strip_Nil
        world_repo_same assms(2) split: head_ref.splits)

section \<open>Switching with a dirty working tree\<close>

lemma status_truthy:
  "strip (status_lines r W) = [] \<longleftrightarrow>
     map_of (r_index r) = map_of (head_tree r) \<and> map_of W = map_of (r_index r)"
  using strip_status_lines[of r W] changed_paths_Nil_iff[of r W] by blast

lemma handle_changes_discard:
  assumes g: "git_on_path w" and r: "repo w = Some r"
    and d: "map_of (worktree w) \<noteq> map_of (head_tree r)"
  shows "\<exists>W'. handle_changes ''preedit'' ''gpt'' w =
           (Inr (), w\<lparr>calls := calls w @ [Status_porcelain, Reset_hard, Clean_fd],
                       repo := Some (r\<lparr>r_index := head_tree r\<rparr>), worktree := W'\<rparr>) \<and>
           map_of W' = map_of (head_tree r)"
proof -
  have t: "truthy (PyStr (strip (status_lines r (worktree w))))"
    using d by (auto simp: status_truthy)
  let ?W = "clean_tree (head_tree r) (reset_tree (head_tree r) (r_index r) (worktree w))"
  have "map_of ?W = map_of (head_tree r)"
    by (rule ext) (auto simp: map_of_clean_tree map_of_reset_tree)
  moreover have "handle_changes ''preedit'' ''gpt'' w =
           (Inr (), w\<lparr>calls := calls w @ [Status_porcelain, Reset_hard, Clean_fd],
                       repo := Some (r\<lparr>r_index := head_tree r\<rparr>), worktree := ?W\<rparr>)"
    using t by (simp add: handle_changes_def run_git_in_repo g r)
  ultimately show ?thesis by blast
qed


lemma head_chain_index [simp]: "head_chain (r\<lparr>r_index := x\<rparr>) = head_chain r"
  by (simp add: head_chain_def split: head_ref.splits)

lemma head_tree_index [simp]: "head_tree (r\<lparr>r_index := x\<rparr>) = head_tree r"
  by (simp add: head_tree_def)

lemma map_of_clean_self: "map_of (clean_tree W W) = map_of W"
  by (rule ext) (auto simp: map_of_clean_tree)

lemma handle_changes_commit:
  assumes g: "git_on_path w" and r: "repo w = Some r"
    and d: "map_of (worktree w) \<noteq> map_of (head_tree r)"
    and h: "r_head r = OnBranch b"
    and n: "\<not> (current = ''preedit'' \<and> state = ''gpt'')"
  shows "handle_changes current state w =
           (Inr (), w\<lparr>calls := calls w @ [Status_porcelain, Add_all,
                                Commit (switch_message current state), Clean_fd],
                       repo := Some (r\<lparr>r_index := worktree w,
                                r_branches := AList.update b
                                  ((switch_message current state, worktree w) # head_chain r)
                                  (r_branches r)\<rparr>),
                       worktree := clean_tree (worktree w) (worktree w)\<rparr>)"
proof -
  have t: "strip (status_lines r (worktree w)) \<noteq> []"
    using d by (auto simp: status_truthy)
  have c: "\<not> tree_eq (worktree w) (head_tree r)"
    using d by (simp add: tree_eq_iff)
  have nn: "(current = ''preedit'' \<and> state = ''gpt'') = False"
    using n by simp
  show ?thesis
    using t c h
    by (simp add: handle_changes_def run_git_in_repo g r switch_message_def nn record_commit_def)
qed

lemma checkout_clean:
  assumes g: "git_on_path w" and r: "repo w = Some r"
    and b: "map_of (r_branches r) n = Some c"
    and i: "map_of (r_index r) = map_of (head_tree r)"
    and k: "map_of (worktree w) = map_of (head_tree r)"
  shows "run_git_command (Checkout n) False w =
           (PyBool True,
            w\<lparr>calls := calls w @ [Checkout n],
               repo := Some (r\<lparr>r_head := OnBranch n,
                               r_index := switch_tree (head_tree r) (tip_tree c) (r_index r)\<rparr>),
               worktree := switch_tree (head_tree r) (tip_tree c) (worktree w)\<rparr>) \<and>
         map_of (switch_tree (head_tree r) (tip_tree c) (r_index r)) = map_of (tip_tree c) \<and>
         map_of (switch_tree (head_tree r) (tip_tree c) (worktree w)) = map_of (tip_tree c)"
proof -
  have nc: "\<not> checkout_conflict (head_tree r) (tip_tree c) (r_index r) (worktree w)"
    by (simp add: checkout_conflict_iff i k)
  have "map_of (switch_tree (head_tree r) (tip_tree c) X) = map_of (tip_tree c)"
    if "map_of X = map_of (head_tree r)" for X
    by (rule ext) (simp add: map_of_switch_tree that)
  with nc show ?thesis
    by (simp add: run_git_in_repo g r b i k)
qed

text \<open>
  Claim C1. A switch to an existing variant from another branch with a dirty working tree
  succeeds. From \<open>preedit\<close> to \<open>gpt\<close> the client is run with \<open>reset --hard\<close>, then
  \<open>clean -fd\<close>, then \<open>checkout\<close>, no branch gains a commit, and the working files are
  those of the target branch: the modifications are gone. On every other transition the
  client is run with \<open>add .\<close>, \<open>commit\<close> with the generated message, \<open>clean -fd\<close>, then
  \<open>checkout\<close>, and the departing branch has one new commit on top of its chain, holding
  the working files as they were.
\<close>

theorem switch_dirty_tree:
  assumes st: "state \<in> {''gpt'', ''sonnet''}"
    and g: "git_on_path w" and r: "repo w = Some r"
    and h: "r_head r = OnBranch current" and rn: "ref_name current"
    and ne: "current \<noteq> state"
    and b: "map_of (r_branches r) state = Some c"
    and d: "dirty w"
  shows "\<exists>w' r'. switch_state self state w = (Inr (), w') \<and> repo w' = Some r' \<and>
           r_head r' = OnBranch state \<and>
           map_of (worktree w') = map_of (tip_tree c) \<and>
           map_of (r_index r') = map_of (tip_tree c) \<and>
           (if current = ''preedit'' \<and> state = ''gpt''
            then calls w' = calls w @ [Branch_list state, Branch_show_current, Status_porcelain,
                                       Reset_hard, Clean_fd, Checkout state] \<and>
                 r_branches r' = r_branches r
            else calls w' = calls w @ [Branch_list state, Branch_show_current, Status_porcelain,
                                       Add_all, Commit (switch_message current state),
                                       Clean_fd, Checkout state] \<and>
                 r_branches r' =
                   AList.update current
                     ((switch_message current state, worktree w) # head_chain r)
                     (r_branches r))"
proof -
  have rs: "ref_name state" using st by (auto simp: ref_name_def is_space_def)
  have d': "map_of (worktree w) \<noteq> map_of (head_tree r)"
    using d r by (simp add: dirty_def tree_eq_iff)
  let ?w1 = "w\<lparr>calls := calls w @ [Branch_list state]\<rparr>"
  let ?w2 = "w\<lparr>calls := calls w @ [Branch_list state, Branch_show_current]\<rparr>"
  have e1: "branch_exists state w = (True, ?w1)"
    using branch_exists_in_repo[OF g r rs] b by simp
  have e2: "get_current_branch ?w1 = (current, ?w2)"
    using get_current_branch_in_repo[of ?w1 r] g r h strip_ref_line[OF rn] rn
    by (simp add: ref_name_def)
  have g2: "git_on_path ?w2" "repo ?w2 = Some r" "map_of (worktree ?w2) \<noteq> map_of (head_tree r)"
    using g r d' by simp_all
  have pre: "switch_state self state w =
      (case handle_changes current state ?w2 of
         (Inl e, w3) \<Rightarrow> (Inl e, w3)
       | (Inr u, w3) \<Rightarrow>
           (case run_git_command (Checkout state) False w3 of
              (v, w4) \<Rightarrow> if truthy v then (Inr (), w4) else (Inl CheckoutFailed, w4)))"
    using st g r ne by (simp add: switch_state_def check_git_available_def e1 e2)
  show ?thesis
  proof (cases "current = ''preedit'' \<and> state = ''gpt''")
    case True
    from handle_changes_discard[OF g2] True obtain W' where
      hc: "handle_changes current state ?w2 =
            (Inr (), ?w2\<lparr>calls := calls ?w2 @ [Status_porcelain, Reset_hard, Clean_fd],
                        repo := Some (r\<lparr>r_index := head_tree r\<rparr>), worktree := W'\<rparr>)"
      and W': "map_of W' = map_of (head_tree r)" by blast
    let ?w3 = "?w2\<lparr>calls := calls ?w2 @ [Status_porcelain, Reset_hard, Clean_fd],
                        repo := Some (r\<lparr>r_index := head_tree r\<rparr>), worktree := W'\<rparr>"
    have co: "run_git_command (Checkout state) False ?w3 =
           (PyBool True,
            ?w3\<lparr>calls := calls ?w3 @ [Checkout state],
               repo := Some (r\<lparr>r_index := head_tree r\<rparr>\<lparr>r_head := OnBranch state,
                               r_index := switch_tree (head_tree (r\<lparr>r_index := head_tree r\<rparr>)) (tip_tree c) (r_index (r\<lparr>r_index := head_tree r\<rparr>))\<rparr>),
               worktree := switch_tree (head_tree (r\<lparr>r_index := head_tree r\<rparr>)) (tip_tree c) (worktree ?w3)\<rparr>) \<and>
         map_of (switch_tree (head_tree (r\<lparr>r_index := head_tree r\<rparr>)) (tip_tree c) (r_index (r\<lparr>r_index := head_tree r\<rparr>))) = map_of (tip_tree c) \<and>
         map_of (switch_tree (head_tree (r\<lparr>r_index := head_tree r\<rparr>)) (tip_tree c) (worktree ?w3)) = map_of (tip_tree c)"
      by (rule checkout_clean) (use g b W' in simp_all)
    have "switch_state self state w =
            (Inr (), ?w3\<lparr>calls := calls ?w3 @ [Checkout state],
               repo := Some (r\<lparr>r_head := OnBranch state,
                               r_index := switch_tree (head_tree r) (tip_tree c) (head_tree r)\<rparr>),
               worktree := switch_tree (head_tree r) (tip_tree c) W'\<rparr>)"
      using co by (simp add: pre hc)
    with co show ?thesis
      by (simp add: True)
  next
    case False
    let ?m = "switch_message current state"
    let ?r3 = "r\<lparr>r_index := worktree w,
                  r_branches := AList.update current ((?m, worktree w) # head_chain r) (r_branches r)\<rparr>"
    let ?w3 = "?w2\<lparr>calls := calls ?w2 @ [Status_porcelain, Add_all, Commit ?m, Clean_fd],
                     repo := Some ?r3,
                     worktree := clean_tree (worktree ?w2) (worktree ?w2)\<rparr>"
    have hc: "handle_changes current state ?w2 = (Inr (), ?w3)"
      using handle_changes_commit[OF g2 h False] by simp
    have ht: "head_tree ?r3 = worktree w"
      using h by (simp add: head_tree_def head_chain_def update_conv' tip_tree_def)
    have co: "run_git_command (Checkout state) False ?w3 =
           (PyBool True,
            ?w3\<lparr>calls := calls ?w3 @ [Checkout state],
               repo := Some (?r3\<lparr>r_head := OnBranch state,
                               r_index := switch_tree (head_tree ?r3) (tip_tree c) (r_index ?r3)\<rparr>),
               worktree := switch_tree (head_tree ?r3) (tip_tree c) (worktree ?w3)\<rparr>) \<and>
         map_of (switch_tree (head_tree ?r3) (tip_tree c) (r_index ?r3)) = map_of (tip_tree c) \<and>
         map_of (switch_tree (head_tree ?r3) (tip_tree c) (worktree ?w3)) = map_of (tip_tree c)"
      by (rule checkout_clean) (use g b ne ht in \<open>simp_all add: update_conv' map_of_clean_self\<close>)
    have nn: "(current = ''preedit'' \<and> state = ''gpt'') = False"
      using False by simp
    have "switch_state self state w =
            (Inr (), ?w3\<lparr>calls := calls ?w3 @ [Checkout state],
               repo := Some (?r3\<lparr>r_head := OnBranch state,
                               r_index := switch_tree (head_tree ?r3) (tip_tree c) (r_index ?r3)\<rparr>),
               worktree := switch_tree (head_tree ?r3) (tip_tree c) (worktree ?w3)\<rparr>)"
      using co by (simp add: pre hc)
    with co show ?thesis
      by (simp add: nn)
  qed
qed

lemmas example_defs = example_world_def example_repo_def

lemma example_dirty: "dirty (example_world b edited_tree)" if "b \<in> {''preedit'', ''gpt''}"
  using that
  by (auto simp: dirty_def example_defs head_tree_def head_chain_def
        tip_tree_def tree_eq_def base_tree_def edited_tree_def)

theorem switch_dirty_tree_witness:
  "dirty (example_world ''preedit'' edited_tree) \<and>
   (\<exists>w' r'. switch_state CodebaseSwitcher ''gpt'' (example_world ''preedit'' edited_tree) = (Inr (), w') \<and>
      repo w' = Some r' \<and> r_branches r' = r_branches (example_repo ''preedit'') \<and>
      map_of (worktree w') = map_of base_tree) \<and>
   dirty (example_world ''gpt'' edited_tree) \<and>
   (\<exists>w' r'. switch_state CodebaseSwitcher ''sonnet'' (example_world ''gpt'' edited_tree) = (Inr (), w') \<and>
      repo w' = Some r' \<and>
      map_of (r_branches r') ''gpt'' =
        Some [(''Auto-commit from gpt before switching to sonnet'', edited_tree),
              (''Initial commit'', base_tree)] \<and>
      map_of (worktree w') = map_of base_tree)"
proof -
  let ?c = "[(''Initial commit'', base_tree)]"
  have d1: "dirty (example_world ''preedit'' edited_tree)"
    by (rule example_dirty) simp
  have d2: "dirty (example_world ''gpt'' edited_tree)"
    by (rule example_dirty) simp
  have g: "git_on_path (example_world b W)" for b W by (simp add: example_defs)
  have r: "repo (example_world b W) = Some (example_repo b)" for b W by (simp add: example_defs)
  have h: "r_head (example_repo b) = OnBranch b" for b by (simp add: example_defs)
  have rn: "ref_name ''preedit''" "ref_name ''gpt''" by (simp_all add: ref_name_def is_space_def)
  have b1: "map_of (r_branches (example_repo b)) ''gpt'' = Some ?c" for b
    by (simp add: example_defs)
  have b2: "map_of (r_branches (example_repo b)) ''sonnet'' = Some ?c" for b
    by (simp add: example_defs)
  have t: "tip_tree ?c = base_tree" by (simp add: tip_tree_def)
  have hc: "head_chain (example_repo ''gpt'') = ?c" by (simp add: head_chain_def example_defs)
  have m: "switch_message ''gpt'' ''sonnet'' = ''Auto-commit from gpt before switching to sonnet''"
    by (simp add: switch_message_def)
  have w: "worktree (example_world b W) = W" for b W by (simp add: example_defs)
  have u: "map_of (AList.update ''gpt'' x (r_branches (example_repo b))) ''gpt'' = Some x" for x b
    by (simp add: update_conv')
  from switch_dirty_tree [of "''gpt''" _ _ "''preedit''" ?c CodebaseSwitcher, OF _ g r h rn(1) _ b1 d1]
  obtain w1 r1 where
    "switch_state CodebaseSwitcher ''gpt'' (example_world ''preedit'' edited_tree) = (Inr (), w1)"
    "repo w1 = Some r1" "map_of (worktree w1) = map_of (tip_tree ?c)"
    "r_branches r1 = r_branches (example_repo ''preedit'')"
    by auto
  then have a: "\<exists>w' r'. switch_state CodebaseSwitcher ''gpt'' (example_world ''preedit'' edited_tree) = (Inr (), w') \<and>
      repo w' = Some r' \<and> r_branches r' = r_branches (example_repo ''preedit'') \<and>
      map_of (worktree w') = map_of base_tree"
    unfolding t by blast
  from switch_dirty_tree [of "''sonnet''" _ _ "''gpt''" ?c CodebaseSwitcher, OF _ g r h rn(2) _ b2 d2]
  obtain w2 r2 where
    "switch_state CodebaseSwitcher ''sonnet'' (example_world ''gpt'' edited_tree) = (Inr (), w2)"
    "repo w2 = Some r2" "map_of (worktree w2) = map_of (tip_tree ?c)"
    "r_branches r2 = AList.update ''gpt''
        ((switch_message ''gpt'' ''sonnet'', worktree (example_world ''gpt'' edited_tree)) #
         head_chain (example_repo ''gpt'')) (r_branches (example_repo ''gpt''))"
    by auto
  then have b: "\<exists>w' r'. switch_state CodebaseSwitcher ''sonnet'' (example_world ''gpt'' edited_tree) = (Inr (), w') \<and>
      repo w' = Some r' \<and>
      map_of (r_branches r') ''gpt'' =
        Some [(''Auto-commit from gpt before switching to sonnet'', edited_tree),
              (''Initial commit'', base_tree)] \<and>
      map_of (worktree w') = map_of base_tree"
    unfolding t hc m w by (metis u)
  from d1 d2 a b show ?thesis by blast
qed

section \<open>Rejected inputs\<close>

text \<open>
  Claim C4. A switch to a name other than \<open>gpt\<close> and \<open>sonnet\<close> fails with
  \<open>InvalidState\<close> and returns the world as it was: the current branch, the working
  files, the repository and the list of subprocess calls are unchanged.
\<close>

theorem switch_invalid_state:
  "state \<notin> {''gpt'', ''sonnet''} \<Longrightarrow> switch_state self state w = (Inl InvalidState, w)"
  by (simp add: switch_state_def)

theorem switch_invalid_state_witness:
  "''preedit'' \<notin> {''gpt'', ''sonnet''} \<and>
   switch_state CodebaseSwitcher ''preedit'' fresh_world = (Inl InvalidState, fresh_world)"
  using switch_invalid_state [of "''preedit''" CodebaseSwitcher fresh_world] by simp

text \<open>
  Claim C10. The rejection of an unknown name comes before every check of the
  environment: it is \<open>InvalidState\<close> with no subprocess started, whatever the world,
  while a known name gives \<open>ToolUnavailable\<close> when the client is missing and
  \<open>NotInitialized\<close> when there is no repository.
\<close>

theorem invalid_state_precedence:
  "(state \<notin> {''gpt'', ''sonnet''} \<longrightarrow>
      fst (switch_state self state w) = Inl InvalidState \<and>
      calls (snd (switch_state self state w)) = calls w) \<and>
   (state \<in> {''gpt'', ''sonnet''} \<and> \<not> git_on_path w \<longrightarrow>
      fst (switch_state self state w) = Inl ToolUnavailable) \<and>
   (state \<in> {''gpt'', ''sonnet''} \<and> git_on_path w \<and> repo w = None \<longrightarrow>
      fst (switch_state self state w) = Inl NotInitialized)"
  by (simp add: switch_state_def check_git_available_def)

theorem invalid_state_precedence_witness:
  "fst (switch_state CodebaseSwitcher ''claude'' (fresh_world\<lparr>git_on_path := False\<rparr>)) = Inl InvalidState \<and>
   fst (switch_state CodebaseSwitcher ''gpt'' (fresh_world\<lparr>git_on_path := False\<rparr>)) = Inl ToolUnavailable \<and>
   fst (switch_state CodebaseSwitcher ''claude'' fresh_world) = Inl InvalidState \<and>
   fst (switch_state CodebaseSwitcher ''gpt'' fresh_world) = Inl NotInitialized"
  using invalid_state_precedence [of "''claude''" CodebaseSwitcher "fresh_world\<lparr>git_on_path := False\<rparr>"]
    invalid_state_precedence [of "''gpt''" CodebaseSwitcher "fresh_world\<lparr>git_on_path := False\<rparr>"]
    invalid_state_precedence [of "''claude''" CodebaseSwitcher fresh_world]
    invalid_state_precedence [of "''gpt''" CodebaseSwitcher fresh_world]
  by (simp add: fresh_world_def)

text \<open>
  Claim C9. The response to the confirmation is looked at before anything else: unless
  it is \<open>y\<close> once stripped and lower-cased, the reset fails with \<open>UserAborted\<close> and
  returns the world as it was, so no file is removed, no branch is deleted and no
  subprocess is started.
\<close>

theorem reset_declined:
  "lower (strip response) \<noteq> ''y'' \<Longrightarrow>
     reset_to_initial_state self response w = (Inl UserAborted, w)"
  by (simp add: reset_to_initial_state_def)

lemma ls: "lower (strip ''yes'') = ''yes''" "lower (strip '''') = ''''"  "lower (strip '' N '') = ''n''"
  by (simp_all add: lower_def strip_def lstrip_def rstrip_def is_space_def lower_char_def)

theorem reset_declined_witness:
  "reset_to_initial_state CodebaseSwitcher '''' fresh_world = (Inl UserAborted, fresh_world) \<and>
   reset_to_initial_state CodebaseSwitcher ''yes'' fresh_world = (Inl UserAborted, fresh_world)"
  using reset_declined [of "''''" CodebaseSwitcher fresh_world] reset_declined [of "''yes''" CodebaseSwitcher fresh_world]
  by (simp add: ls)

section \<open>Auto-commit, verification and cleanup\<close>

lemma clean_state_maps:
  "clean_state r W \<longleftrightarrow>
     map_of (r_index r) = map_of (head_tree r) \<and> map_of W = map_of (r_index r)"
  by (simp add: clean_state_def tree_eq_iff)

lemma get_current_branch_name:
  "git_on_path w \<Longrightarrow> repo w = Some r \<Longrightarrow>
     get_current_branch w = (current_name r, w\<lparr>calls := calls w @ [Branch_show_current]\<rparr>)"
  by (simp add: get_current_branch_in_repo current_name_def)

lemma head_tree_record_commit: "head_tree (record_commit m r) = r_index r"
  by (auto simp: record_commit_def head_tree_def head_chain_def tip_tree_def update_conv'
      split: head_ref.splits)

lemma r_index_record_commit [simp]: "r_index (record_commit m r) = r_index r"
  by (simp add: record_commit_def split: head_ref.splits)

lemma clean_after_commit: "clean_state (record_commit m (r\<lparr>r_index := W\<rparr>)) W"
  by (simp add: clean_state_maps head_tree_record_commit)

lemma status_clean: "strip (status_lines r W) = [] \<longleftrightarrow> clean_state r W"
  by (simp add: status_truthy clean_state_maps)

lemma clean_state_tree_eq: "clean_state r W \<Longrightarrow> tree_eq W (head_tree r)"
  by (simp add: clean_state_maps tree_eq_iff)

lemma auto_commit_in_repo:
  assumes g: "git_on_path w" and r: "repo w = Some r"
  shows "auto_commit msg w =
     (if clean_state r (worktree w) then (Inr (), w\<lparr>calls := calls w @ [Status_porcelain]\<rparr>)
      else if tree_eq (worktree w) (head_tree r)
      then (Inl StageOrCommitFailed,
            w\<lparr>calls := calls w @ [Status_porcelain, Branch_show_current, Add_all,
                                   Commit (msg (current_name r))],
              repo := Some (r\<lparr>r_index := worktree w\<rparr>)\<rparr>)
      else (Inr (),
            w\<lparr>calls := calls w @ [Status_porcelain, Branch_show_current, Add_all,
                                   Commit (msg (current_name r))],
              repo := Some (record_commit (msg (current_name r)) (r\<lparr>r_index := worktree w\<rparr>))\<rparr>))"
proof (cases "clean_state r (worktree w)")
  case True
  then show ?thesis
    by (simp add: auto_commit_def run_git_in_repo[OF g r] status_clean world_repo_same r)
next
  case False
  let ?w1 = "w\<lparr>calls := calls w @ [Status_porcelain]\<rparr>"
  let ?w2 = "w\<lparr>calls := calls w @ [Status_porcelain, Branch_show_current]\<rparr>"
  have s: "run_git_command Status_porcelain True w = (PyStr (strip (status_lines r (worktree w))), ?w1)"
    by (simp add: run_git_in_repo[OF g r] world_repo_same r)
  have c: "get_current_branch ?w1 = (current_name r, ?w2)"
    using get_current_branch_name[of ?w1 r] g r by simp
  have g2: "git_on_path ?w2" "repo ?w2 = Some r" using g r by simp_all
  show ?thesis
    using False
    by (simp add: auto_commit_def s c status_clean run_git_in_repo[OF g2]
        run_git_in_repo g)
qed


lemma all_branches_exist_in_repo:
  assumes g: "git_on_path w" and r: "repo w = Some r" and n: "\<forall>b \<in> set bs. ref_name b"
  shows "\<exists>cs. all_branches_exist bs w =
           ((\<forall>b \<in> set bs. map_of (r_branches r) b \<noteq> None), w\<lparr>calls := calls w @ cs\<rparr>)"
  using assms
proof (induction bs arbitrary: w)
  case Nil
  show ?case by (rule exI[of _ "[]"]) simp
next
  case (Cons b bs)
  let ?w1 = "w\<lparr>calls := calls w @ [Branch_list b]\<rparr>"
  have e: "branch_exists b w = (map_of (r_branches r) b \<noteq> None, ?w1)"
    using branch_exists_in_repo[of w r b] Cons.prems by simp
  show ?case
  proof (cases "map_of (r_branches r) b")
    case None
    then show ?thesis by (intro exI[of _ "[Branch_list b]"]) (simp add: e)
  next
    case (Some c)
    from Cons.IH[of ?w1] Cons.prems obtain cs where
      "all_branches_exist bs ?w1 =
         ((\<forall>b \<in> set bs. map_of (r_branches r) b \<noteq> None), ?w1\<lparr>calls := calls ?w1 @ cs\<rparr>)"
      by auto
    then show ?thesis
      using Some by (intro exI[of _ "Branch_list b # cs"]) (simp add: e)
  qed
qed

lemma diff_quiet_in_repo:
  assumes g: "git_on_path w" and r: "repo w = Some r"
  shows "\<exists>out. subprocess_run (Diff_quiet a b) w =
           (Exited (if same_tip r (a, b) then 0 else if map_of (r_branches r) a \<noteq> None \<and> map_of (r_branches r) b \<noteq> None then 1 else 128) out,
            w\<lparr>calls := calls w @ [Diff_quiet a b]\<rparr>)"
  using g r
  by (auto simp: subprocess_run_def same_tip_def world_repo_same split: option.splits)

lemma identical_pairs_in_repo:
  assumes g: "git_on_path w" and r: "repo w = Some r"
  shows "\<exists>cs. identical_pairs ps w = (Some (filter (same_tip r) ps), w\<lparr>calls := calls w @ cs\<rparr>)"
  using assms
proof (induction ps arbitrary: w)
  case Nil
  show ?case by (rule exI[of _ "[]"]) simp
next
  case (Cons p ps)
  obtain a b where p: "p = (a, b)" by (cases p)
  let ?w1 = "w\<lparr>calls := calls w @ [Diff_quiet a b]\<rparr>"
  from diff_quiet_in_repo[OF Cons.prems, of a b] obtain out where
    d: "subprocess_run (Diff_quiet a b) w =
           (Exited (if same_tip r (a, b) then 0 else if map_of (r_branches r) a \<noteq> None \<and> map_of (r_branches r) b \<noteq> None then 1 else 128) out, ?w1)"
    by blast
  from Cons.IH[of ?w1] Cons.prems obtain cs where
    i: "identical_pairs ps ?w1 = (Some (filter (same_tip r) ps), ?w1\<lparr>calls := calls ?w1 @ cs\<rparr>)"
    by auto
  show ?case
    by (rule exI[of _ "Diff_quiet a b # cs"]) (simp add: p d i)
qed

lemma verify_in_repo:
  assumes g: "git_on_path w" and r: "repo w = Some r"
    and s: "states self = [''preedit'', ''gpt'', ''sonnet'']"
  shows "\<exists>cs. verify_branches_different self w =
           ((if \<not> (\<forall>b \<in> set (states self). map_of (r_branches r) b \<noteq> None)
             then Inl NotInitialized
             else if filter (same_tip r) branch_pairs \<noteq> [] then Inl DegenerateBranches
             else Inr ()),
            w\<lparr>calls := calls w @ cs\<rparr>)"
proof -
  have n: "\<forall>b \<in> set (states self). ref_name b"
    by (simp add: s ref_name_def is_space_def)
  from all_branches_exist_in_repo[OF g r n] obtain cs where
    a: "all_branches_exist (states self) w =
           ((\<forall>b \<in> set (states self). map_of (r_branches r) b \<noteq> None), w\<lparr>calls := calls w @ cs\<rparr>)"
    by blast
  let ?w1 = "w\<lparr>calls := calls w @ cs\<rparr>"
  have g1: "git_on_path ?w1" "repo ?w1 = Some r" using g r by simp_all
  from identical_pairs_in_repo[OF g1] obtain cs' where
    i: "identical_pairs branch_pairs ?w1 =
          (Some (filter (same_tip r) branch_pairs), ?w1\<lparr>calls := calls ?w1 @ cs'\<rparr>)"
    by blast
  show ?thesis
  proof (cases "\<forall>b \<in> set (states self). map_of (r_branches r) b \<noteq> None")
    case False
    then show ?thesis
      unfolding verify_branches_different_def a by (intro exI[of _ cs]) simp
  next
    case True
    with i show ?thesis
      by (intro exI[of _ "cs @ cs'"]) (simp add: verify_branches_different_def a)
  qed
qed

lemma create_zip_message:
  "create_zip self w =
     (if \<not> check_git_available w then (Inl ToolUnavailable, w)
      else if repo w = None then (Inl NotInitialized, w)
      else
        (case auto_commit zip_message w of
           (Inl e, w1) \<Rightarrow> (Inl e, w1)
         | (Inr u, w1) \<Rightarrow>
             (case verify_branches_different self w1 of
                (Inl e, w2) \<Rightarrow> (Inl e, w2)
              | (Inr u', w2) \<Rightarrow> write_archive self w2)))"
  by (simp add: create_zip_def)

lemma auto_commit_zip:
  assumes g: "git_on_path w" and r: "repo w = Some r"
  shows "\<exists>cs. auto_commit zip_message w =
           ((if clean_state r (worktree w) \<or> \<not> tree_eq (worktree w) (head_tree r)
             then Inr () else Inl StageOrCommitFailed),
            w\<lparr>calls := calls w @ cs,
              repo := Some (if clean_state r (worktree w) \<or> \<not> tree_eq (worktree w) (head_tree r)
                            then committed_repo r (worktree w) else r\<lparr>r_index := worktree w\<rparr>)\<rparr>)"
proof (cases "clean_state r (worktree w)")
  case True
  then show ?thesis
    by (intro exI[of _ "[Status_porcelain]"])
       (simp add: auto_commit_in_repo[OF g r] committed_repo_def world_repo_same r)
next
  case False
  then show ?thesis
    by (intro exI[of _ "[Status_porcelain, Branch_show_current, Add_all,
                         Commit (zip_message (current_name r))]"])
       (simp add: auto_commit_in_repo[OF g r] committed_repo_def)
qed

text \<open>
  Claim C2, as amended. The archive operation first commits a dirty working tree and
  compares the branches afterwards. When that commit goes through (or there is nothing to
  commit), the three managed branches exist, and two of them then hold the same tree, the
  operation fails with \<open>DegenerateBranches\<close>, the files of the working directory are
  those it started with (no archive among them), and the repository is the one the
  auto-commit left.
\<close>

theorem archive_identical_branches:
  assumes g: "git_on_path w" and r: "repo w = Some r"
    and s: "states self = [''preedit'', ''gpt'', ''sonnet'']"
    and ok: "clean_state r (worktree w) \<or> \<not> tree_eq (worktree w) (head_tree r)"
    and e: "\<forall>b \<in> set (states self). map_of (r_branches (committed_repo r (worktree w))) b \<noteq> None"
    and i: "\<exists>p \<in> set branch_pairs. same_tip (committed_repo r (worktree w)) p"
  shows "\<exists>w'. create_zip self w = (Inl DegenerateBranches, w') \<and>
           worktree w' = worktree w \<and>
           repo w' = Some (committed_repo r (worktree w))"
proof -
  let ?r1 = "committed_repo r (worktree w)"
  from auto_commit_zip[OF g r] ok obtain cs where
    a: "auto_commit zip_message w = (Inr (), w\<lparr>calls := calls w @ cs, repo := Some ?r1\<rparr>)"
    by auto
  let ?w1 = "w\<lparr>calls := calls w @ cs, repo := Some ?r1\<rparr>"
  have g1: "git_on_path ?w1" "repo ?w1 = Some ?r1" using g by simp_all
  from i have f: "filter (same_tip ?r1) branch_pairs \<noteq> []"
    by (simp add: filter_empty_conv)
  from verify_in_repo[OF g1 s] e f obtain cs' where
    v: "verify_branches_different self ?w1 =
          (Inl DegenerateBranches, ?w1\<lparr>calls := calls ?w1 @ cs'\<rparr>)"
    by auto
  show ?thesis
    using g r by (simp add: create_zip_message check_git_available_def a v)
qed

lemma delete_absent: "map_of al k = None \<Longrightarrow> AList.delete k al = al"
  by (induction al) (auto simp: AList.delete_eq)

lemma map_of_fold_delete:
  "map_of (fold AList.delete ns al) k = (if k \<in> set ns then None else map_of al k)"
  by (induction ns arbitrary: al) (auto simp: delete_conv')

lemma worktree_run_frame:
  "cmd \<in> {Branch_list n, Branch_D n} \<Longrightarrow>
     worktree (snd (run_git_command cmd c w)) = worktree w"
  by (auto simp: run_git_command_def subprocess_run_def Let_def
      split: option.splits prod.splits if_splits)

lemma worktree_branch_exists: "worktree (snd (branch_exists n w)) = worktree w"
  using worktree_run_frame[of "Branch_list n" n True w]
  by (auto simp: branch_exists_def split: prod.splits)

lemma worktree_delete_branches: "worktree (delete_branches ns w) = worktree w"
proof (induction ns arbitrary: w)
  case Nil
  show ?case by simp
next
  case (Cons n ns)
  obtain ex w1 where e: "branch_exists n w = (ex, w1)" by (cases "branch_exists n w")
  obtain d w2 where d: "run_git_command (Branch_D n) False w1 = (d, w2)"
    by (cases "run_git_command (Branch_D n) False w1")
  have 1: "worktree w1 = worktree w" using worktree_branch_exists[of n w] e by simp
  have 2: "worktree w2 = worktree w1"
    using worktree_run_frame[of "Branch_D n" n False w1] d by simp
  show ?case using 1 2 Cons.IH by (simp add: e d)
qed

lemma delete_branches_in_repo:
  assumes g: "git_on_path w" and r: "repo w = Some r"
    and n: "\<forall>b \<in> set ns. ref_name b \<and> r_head r \<noteq> OnBranch b"
  shows "\<exists>cs. delete_branches ns w =
           w\<lparr>calls := calls w @ cs,
             repo := Some (r\<lparr>r_branches := fold AList.delete ns (r_branches r)\<rparr>)\<rparr>"
  using assms
proof (induction ns arbitrary: w r)
  case Nil
  show ?case by (rule exI[of _ "[]"]) (simp add: world_repo_same Nil)
next
  case (Cons b ns)
  let ?w1 = "w\<lparr>calls := calls w @ [Branch_list b]\<rparr>"
  have e: "branch_exists b w = (map_of (r_branches r) b \<noteq> None, ?w1)"
    using branch_exists_in_repo[of w r b] Cons.prems by simp
  have g1: "git_on_path ?w1" "repo ?w1 = Some r" using Cons.prems by simp_all
  show ?case
  proof (cases "map_of (r_branches r) b")
    case None
    from Cons.IH[of ?w1 r] g1 Cons.prems(3) obtain cs where
      "delete_branches ns ?w1 =
         ?w1\<lparr>calls := calls ?w1 @ cs,
              repo := Some (r\<lparr>r_branches := fold AList.delete ns (r_branches r)\<rparr>)\<rparr>"
      by auto
    then show ?thesis
      using None by (intro exI[of _ "Branch_list b # cs"]) (simp add: e delete_absent)
  next
    case (Some c)
    let ?r2 = "r\<lparr>r_branches := AList.delete b (r_branches r)\<rparr>"
    let ?w2 = "w\<lparr>calls := calls w @ [Branch_list b, Branch_D b], repo := Some ?r2\<rparr>"
    have d: "run_git_command (Branch_D b) False ?w1 = (PyBool True, ?w2)"
      using Some Cons.prems(3) by (simp add: run_git_in_repo[OF g1])
    have g2: "git_on_path ?w2" "repo ?w2 = Some ?r2" using Cons.prems by simp_all
    have n2: "\<forall>b \<in> set ns. ref_name b \<and> r_head ?r2 \<noteq> OnBranch b"
      using Cons.prems(3) by simp
    from Cons.IH[OF g2 n2] obtain cs where
      "delete_branches ns ?w2 =
         ?w2\<lparr>calls := calls ?w2 @ cs,
              repo := Some (?r2\<lparr>r_branches := fold AList.delete ns (r_branches ?r2)\<rparr>)\<rparr>"
      by auto
    then show ?thesis
      using Some by (intro exI[of _ "Branch_list b # Branch_D b # cs"]) (simp add: e d)
  qed
qed

lemma find_safe_branch_in_repo:
  assumes g: "git_on_path w" and r: "repo w = Some r"
  shows "\<exists>cs. find_safe_branch [''main'', ''master''] w =
           (first_trunk r, w\<lparr>calls := calls w @ cs\<rparr>)"
proof -
  have n: "ref_name ''main''" "ref_name ''master''" by (simp_all add: ref_name_def is_space_def)
  let ?w1 = "w\<lparr>calls := calls w @ [Branch_list ''main'']\<rparr>"
  have e1: "branch_exists ''main'' w = (map_of (r_branches r) ''main'' \<noteq> None, ?w1)"
    using branch_exists_in_repo[OF g r n(1)] by simp
  have g1: "git_on_path ?w1" "repo ?w1 = Some r" using g r by simp_all
  have e2: "branch_exists ''master'' ?w1 =
              (map_of (r_branches r) ''master'' \<noteq> None,
               w\<lparr>calls := calls w @ [Branch_list ''main'', Branch_list ''master'']\<rparr>)"
    using branch_exists_in_repo[OF g1 n(2)] by simp
  show ?thesis
  proof (cases "map_of (r_branches r) ''main''")
    case (Some c)
    then show ?thesis
      by (intro exI[of _ "[Branch_list ''main'']"]) (simp add: e1 first_trunk_def)
  next
    case None
    then show ?thesis
      by (intro exI[of _ "[Branch_list ''main'', Branch_list ''master'']"])
         (auto simp: e1 e2 first_trunk_def)
  qed
qed

lemma first_trunk_cases:
  "first_trunk r = Some t \<Longrightarrow> t \<in> {''main'', ''master''} \<and> map_of (r_branches r) t \<noteq> None"
  by (auto simp: first_trunk_def split: if_splits)

lemma first_trunk_None:
  "first_trunk r = None \<Longrightarrow> map_of (r_branches r) ''main'' = None"
  by (auto simp: first_trunk_def split: if_splits)

lemma cleanup_in_repo:
  assumes g: "git_on_path w" and r: "repo w = Some r"
    and h: "r_head r = OnBranch b" and rn: "ref_name b"
    and s: "states self = [''preedit'', ''gpt'', ''sonnet'']"
    and nc: "\<And>t c. first_trunk r = Some t \<Longrightarrow> b \<in> set (states self) \<Longrightarrow>
               map_of (r_branches r) t = Some c \<Longrightarrow>
               \<not> checkout_conflict (head_tree r) (tip_tree c) (r_index r) (worktree w)"
  shows "\<exists>w' r'. cleanup_switcher_branches self w = (Inr (), w') \<and> repo w' = Some r' \<and>
           (\<forall>n \<in> set (states self). map_of (r_branches r') n = None) \<and>
           r_head r' = OnBranch (landing self r b)"
proof -
  let ?w1 = "w\<lparr>calls := calls w @ [Branch_show_current]\<rparr>"
  have cn: "current_name r = b"
    using h strip_ref_line[OF rn] rn by (simp add: current_name_def ref_name_def)
  have c: "get_current_branch w = (b, ?w1)"
    using get_current_branch_name[OF g r] cn by simp
  have g1: "git_on_path ?w1" "repo ?w1 = Some r" using g r by simp_all
  from find_safe_branch_in_repo[OF g1] obtain cs where
    f: "find_safe_branch [''main'', ''master''] ?w1 =
          (first_trunk r, w\<lparr>calls := calls w @ Branch_show_current # cs\<rparr>)"
    by auto
  let ?w2 = "w\<lparr>calls := calls w @ Branch_show_current # cs\<rparr>"
  have g2: "git_on_path ?w2" "repo ?w2 = Some r" using g r by simp_all
  have sn: "\<forall>n \<in> set (states self). ref_name n" by (simp add: s ref_name_def is_space_def)
  have fin: "\<exists>w' r'. delete_branches (states self) v = w' \<and> repo w' = Some r' \<and>
           (\<forall>n \<in> set (states self). map_of (r_branches r') n = None) \<and>
           r_head r' = r_head q"
    if "git_on_path v" "repo v = Some q" "\<forall>n \<in> set (states self). r_head q \<noteq> OnBranch n" for v q
  proof -
    from delete_branches_in_repo[OF that(1,2), of "states self"] sn that(3) obtain ds where
      "delete_branches (states self) v =
         v\<lparr>calls := calls v @ ds,
           repo := Some (q\<lparr>r_branches := fold AList.delete (states self) (r_branches q)\<rparr>)\<rparr>"
      by auto
    then show ?thesis by (simp add: map_of_fold_delete)
  qed
  show ?thesis
  proof (cases "first_trunk r")
    case None
    let ?r3 = "if head_chain r = [] then r\<lparr>r_head := OnBranch ''main''\<rparr>
               else r\<lparr>r_head := OnBranch ''main'',
                      r_branches := AList.update ''main'' (head_chain r) (r_branches r)\<rparr>"
    let ?w3 = "w\<lparr>calls := calls w @ Branch_show_current # cs @ [Checkout_b ''main''],
                  repo := Some ?r3\<rparr>"
    have co: "run_git_command (Checkout_b ''main'') False ?w2 = (PyBool True, ?w3)"
      using first_trunk_None[OF None] run_git_in_repo[OF g2, of "Checkout_b ''main''" False]
      by simp
    have g3: "git_on_path ?w3" "repo ?w3 = Some ?r3" using g by simp_all
    have h3: "\<forall>n \<in> set (states self). r_head ?r3 \<noteq> OnBranch n" by (simp add: s)
    from fin[OF g3 h3] obtain w' r' where
      "delete_branches (states self) ?w3 = w'" "repo w' = Some r'"
      "\<forall>n \<in> set (states self). map_of (r_branches r') n = None" "r_head r' = r_head ?r3"
      by blast
    moreover have "cleanup_switcher_branches self w = (Inr (), delete_branches (states self) ?w3)"
      using None
      by (simp add: cleanup_switcher_branches_def c f co del: find_safe_branch.simps)
    ultimately show ?thesis
      using None by (simp add: landing_def)
  next
    case (Some t)
    from first_trunk_cases[OF Some] obtain ct where
      t: "t \<in> {''main'', ''master''}" and ct: "map_of (r_branches r) t = Some ct" by auto
    show ?thesis
    proof (cases "b \<in> set (states self)")
      case True
      let ?r3 = "r\<lparr>r_head := OnBranch t,
                    r_index := switch_tree (head_tree r) (tip_tree ct) (r_index r)\<rparr>"
      let ?w3 = "w\<lparr>calls := calls w @ Branch_show_current # cs @ [Checkout t],
                    repo := Some ?r3,
                    worktree := switch_tree (head_tree r) (tip_tree ct) (worktree w)\<rparr>"
      have co: "run_git_command (Checkout t) False ?w2 = (PyBool True, ?w3)"
        using nc[OF Some True ct] run_git_in_repo[OF g2, of "Checkout t" False]
        by (simp add: ct)
      have g3: "git_on_path ?w3" "repo ?w3 = Some ?r3" using g by simp_all
      have h3: "\<forall>n \<in> set (states self). r_head ?r3 \<noteq> OnBranch n" using t by (auto simp: s)
      from fin[OF g3 h3] obtain w' r' where
        "delete_branches (states self) ?w3 = w'" "repo w' = Some r'"
        "\<forall>n \<in> set (states self). map_of (r_branches r') n = None" "r_head r' = r_head ?r3"
        by blast
      moreover have "cleanup_switcher_branches self w = (Inr (), delete_branches (states self) ?w3)"
        using Some True
        by (simp add: cleanup_switcher_branches_def c f co del: find_safe_branch.simps)
      ultimately show ?thesis
        using Some True by (simp add: landing_def)
    next
      case False
      have h2: "\<forall>n \<in> set (states self). r_head r \<noteq> OnBranch n" using False h by auto
      from fin[OF g2 h2] obtain w' r' where
        "delete_branches (states self) ?w2 = w'" "repo w' = Some r'"
        "\<forall>n \<in> set (states self). map_of (r_branches r') n = None" "r_head r' = r_head r"
        by blast
      moreover have "cleanup_switcher_branches self w = (Inr (), delete_branches (states self) ?w2)"
        using Some False
        by (simp add: cleanup_switcher_branches_def c f del: find_safe_branch.simps)
      ultimately show ?thesis
        using Some False h by (simp add: landing_def)
    qed
  qed
qed

lemma r_head_committed:
  "r_head r = OnBranch b \<Longrightarrow> r_head (committed_repo r W) = OnBranch b"
  by (simp add: committed_repo_def record_commit_def)

lemma clean_committed: "clean_state (committed_repo r W) W"
  by (simp add: committed_repo_def clean_after_commit)

lemma head_tree_committed:
  "head_tree (committed_repo r W) = (if clean_state r W then head_tree r else W)"
  by (simp add: committed_repo_def head_tree_record_commit)

lemma branches_committed:
  "r_head r = OnBranch b \<Longrightarrow> t \<noteq> b \<Longrightarrow>
     map_of (r_branches (committed_repo r W)) t = map_of (r_branches r) t"
  by (simp add: committed_repo_def record_commit_def update_conv')

lemma write_file_zip_name [simp]:
  "zip_name_of (w\<lparr>calls := cs\<rparr>) = zip_name_of w"
  "zip_name_of (w\<lparr>repo := x\<rparr>) = zip_name_of w"
  by (simp_all add: zip_name_of_def)

lemma no_conflict_new_file:
  assumes c: "clean_state r W"
    and w: "\<And>p. p \<noteq> z \<Longrightarrow> map_of W' p = map_of W p"
    and h: "map_of (head_tree r) z = None" and t: "map_of T z = None"
  shows "\<not> checkout_conflict (head_tree r) T (r_index r) W'"
proof -
  have "map_of (head_tree r) p = map_of T p \<or>
        (map_of (r_index r) p = map_of (head_tree r) p \<and> map_of W' p = map_of (r_index r) p)" for p
  proof (cases "p = z")
    case True
    then show ?thesis using h t by simp
  next
    case False
    then show ?thesis using c w[OF False] by (simp add: clean_state_maps)
  qed
  then show ?thesis unfolding checkout_conflict_iff by metis
qed

text \<open>
  Claim C7, as amended. After a successful archive operation in a repository whose head
  is on a branch, where no file of the working directory, of the head commit or of a
  trunk branch has the name of the archive: none of the three managed branches exists;
  the head is on \<open>main\<close> when neither \<open>main\<close> nor \<open>master\<close> existed, on the first of them
  that existed when the operation ran from a managed branch, and on the branch it was on
  otherwise; and deleting the branches leaves the working files as they are.
\<close>

theorem archive_then_cleanup:
  assumes g: "git_on_path w" and r: "repo w = Some r"
    and s: "states self = [''preedit'', ''gpt'', ''sonnet'']"
    and h: "r_head r = OnBranch b" and rn: "ref_name b"
    and ok: "create_zip self w = (Inr (), w')"
    and f1: "map_of (worktree w) [zip_name_of w] = None"
    and f2: "map_of (head_tree r) [zip_name_of w] = None"
    and f3: "\<not> tracks r ''main'' [zip_name_of w]"
    and f4: "\<not> tracks r ''master'' [zip_name_of w]"
  shows "\<exists>r'. repo w' = Some r' \<and>
           (\<forall>n \<in> set (states self). map_of (r_branches r') n = None) \<and>
           r_head r' = OnBranch (landing self (committed_repo r (worktree w)) b) \<and>
           worktree (delete_branches (states self) v) = worktree v"
proof -
  let ?W = "worktree w"
  let ?z = "[zip_name_of w]"
  let ?r1 = "committed_repo r ?W"
  from auto_commit_zip[OF g r] obtain cs where
    a: "auto_commit zip_message w =
           ((if clean_state r ?W \<or> \<not> tree_eq ?W (head_tree r)
             then Inr () else Inl StageOrCommitFailed),
            w\<lparr>calls := calls w @ cs,
              repo := Some (if clean_state r ?W \<or> \<not> tree_eq ?W (head_tree r)
                            then ?r1 else r\<lparr>r_index := ?W\<rparr>)\<rparr>)"
    by blast
  have okc: "clean_state r ?W \<or> \<not> tree_eq ?W (head_tree r)"
  proof (rule ccontr)
    assume "\<not> ?thesis"
    then have "fst (create_zip self w) = Inl StageOrCommitFailed"
      using g r by (simp add: create_zip_message check_git_available_def a)
    with ok show False by simp
  qed
  let ?w1 = "w\<lparr>calls := calls w @ cs, repo := Some ?r1\<rparr>"
  have a1: "auto_commit zip_message w = (Inr (), ?w1)" using a okc by simp
  have g1: "git_on_path ?w1" "repo ?w1 = Some ?r1" using g by simp_all
  from verify_in_repo[OF g1 s] obtain cs' where
    v: "verify_branches_different self ?w1 =
           ((if \<not> (\<forall>b \<in> set (states self). map_of (r_branches ?r1) b \<noteq> None)
             then Inl NotInitialized
             else if filter (same_tip ?r1) branch_pairs \<noteq> [] then Inl DegenerateBranches
             else Inr ()),
            ?w1\<lparr>calls := calls ?w1 @ cs'\<rparr>)"
    by blast
  let ?w2 = "?w1\<lparr>calls := calls ?w1 @ cs'\<rparr>"
  have v1: "verify_branches_different self ?w1 = (Inr (), ?w2)"
  proof (rule ccontr)
    assume n: "\<not> ?thesis"
    have "fst (create_zip self w) \<noteq> Inr ()"
      using g r n v a1 by (auto simp: create_zip_message check_git_available_def split: if_splits)
    with ok show False by simp
  qed
  have wa: "write_archive self ?w2 = (Inr (), w')"
    using ok g r a1 v1 by (simp add: create_zip_message check_git_available_def)
  have zn: "zip_name_of ?w2 = zip_name_of w" by simp
  obtain w3 where
    w3: "write_file ?z (Zip []) ?w2 = Some w3"
    using wa by (auto simp: write_archive_def Let_def zn split: option.splits)
  have w3e: "w3 = ?w2\<lparr>worktree := AList.update ?z (Zip []) ?W\<rparr>" and io: "io_fail w3 = io_fail w"
    using w3 by (auto simp: write_file_def split: if_splits)
  let ?m = "zip_walk self (zip_name_of w) (io_fail w3) (rglob w3)"
  let ?w4 = "w3\<lparr>worktree := AList.update ?z (Zip ?m) (worktree w3)\<rparr>"
  have cl: "\<exists>res. cleanup_switcher_branches self ?w4 = (res, w')"
    using wa w3 by (auto simp: write_archive_def Let_def zn split: prod.splits)
  have g4: "git_on_path ?w4" "repo ?w4 = Some ?r1" using g by (simp_all add: w3e)
  have W4: "map_of (worktree ?w4) p = map_of ?W p" if "p \<noteq> ?z" for p
    using that by (simp add: w3e update_conv')
  have h1: "r_head ?r1 = OnBranch b" by (rule r_head_committed[OF h])
  have hz: "map_of (head_tree ?r1) ?z = None"
    using f1 f2 by (simp add: head_tree_committed)
  have nc: "\<not> checkout_conflict (head_tree ?r1) (tip_tree c) (r_index ?r1) (worktree ?w4)"
    if ft: "first_trunk ?r1 = Some t" and bs: "b \<in> set (states self)"
      and tc: "map_of (r_branches ?r1) t = Some c" for t c
  proof -
    from first_trunk_cases[OF ft] have t: "t \<in> {''main'', ''master''}" by simp
    with bs have "t \<noteq> b" by (auto simp: s)
    then have "map_of (r_branches r) t = Some c"
      using branches_committed[OF h, of t ?W] tc by simp
    with t f3 f4 have "map_of (tip_tree c) ?z = None"
      by (auto simp: tracks_def)
    then show ?thesis
      using W4 hz
      by (intro no_conflict_new_file[where W = ?W and z = ?z] clean_committed) simp_all
  qed
  have "\<exists>w'' r'. cleanup_switcher_branches self ?w4 = (Inr (), w'') \<and> repo w'' = Some r' \<and>
           (\<forall>n \<in> set (states self). map_of (r_branches r') n = None) \<and>
           r_head r' = OnBranch (landing self ?r1 b)"
    by (rule cleanup_in_repo[OF g4 h1 rn s]) (rule nc)
  then obtain w'' r' where
    c: "cleanup_switcher_branches self ?w4 = (Inr (), w'')" "repo w'' = Some r'"
       "\<forall>n \<in> set (states self). map_of (r_branches r') n = None"
       "r_head r' = OnBranch (landing self ?r1 b)"
    by blast
  from cl c(1) have "w'' = w'" by simp
  with c show ?thesis by (simp add: worktree_delete_branches)
qed

section \<open>The members of the archive\<close>

text \<open>The walk writes the members of one part of the entries, then those of the rest.\<close>

lemma zip_walk_append:
  "zip_walk self zip_name bad (xs @ ys) =
     zip_walk self zip_name bad xs @ zip_walk self zip_name bad ys"
proof (induction xs)
  case Nil
  show ?case by simp
next
  case (Cons e xs)
  obtain p n where e: "e = (p, n)" by (cases e)
  from Cons show ?case by (cases n) (simp_all add: e)
qed

text \<open>
  Claim C5, as amended. Take any regular file met by the walk, whatever the entries
  before and after it are, that is neither named like the switcher script nor listed in
  \<open>script_files\<close>. It is left out of the archive when its name is the name of the
  archive, when its relative path or one of its segments matches an exclusion pattern,
  or when reading it raises an error; otherwise it is written under its POSIX path, at
  its place in the order of the walk. A directory is never written.
\<close>

theorem archive_members:
  "(path_name p \<noteq> switcher_entry \<and> path_name p \<notin> set (script_files self) \<longrightarrow>
      zip_walk self zip_name bad (before @ (p, Some c) # after) =
        zip_walk self zip_name bad before @
        (if path_name p = zip_name \<or> should_exclude self p \<or> p \<in> set bad then []
         else [(path_str p, c)]) @
        zip_walk self zip_name bad after) \<and>
   zip_walk self zip_name bad (before @ (p, None) # after) =
     zip_walk self zip_name bad before @ zip_walk self zip_name bad after"
  by (simp add: zip_walk_append)

text \<open>The list \<open>script_files\<close> names \<open>switch.py\<close>; a file with the name that
  \<open>initialize\<close> enters in the ignore list for the switcher script is archived.\<close>

lemma switcher_script_archived:
  "zip_walk CodebaseSwitcher ''out.zip'' []
     [([switcher_entry], Some (Text ''import argparse''))] =
     [(''codebase_switcher2.py'', Text ''import argparse'')]"
  by (simp add: switcher_entry_def path_name_def CodebaseSwitcher_def should_exclude_def
      path_str_def)

section \<open>Initialization\<close>

lemma strip_cons_nonspace: "\<not> is_space c \<Longrightarrow> strip (c # t) \<noteq> []"
proof -
  assume ns: "\<not> is_space c"
  have "\<exists>x\<in>set (rev (c # t)). \<not> is_space x" using ns by auto
  then have ne: "dropWhile is_space (rev (c # t)) \<noteq> []"
    by (simp only: dropWhile_eq_Nil_conv) blast
  have "last (dropWhile is_space (rev (c # t))) = c"
    using ns by (induction t rule: rev_induct) auto
  then have "hd (rstrip (c # t)) = c" using ne by (simp add: rstrip_def hd_rev)
  moreover have "rstrip (c # t) \<noteq> []" using ne by (simp add: rstrip_def)
  ultimately show ?thesis
    using ns by (cases "rstrip (c # t)") (auto simp: strip_def lstrip_def)
qed

lemma write_file_frame:
  "write_file p c w = Some w' \<Longrightarrow> w' = w\<lparr>worktree := worktree w'\<rparr>"
  by (auto simp: write_file_def split: if_splits)

lemma write_readme_frame: "write_readme w = w\<lparr>worktree := worktree (write_readme w)\<rparr>"
  by (auto simp: write_readme_def write_file_def split: option.splits if_splits)

lemma update_cursorignore_frame:
  "update_cursorignore w = w\<lparr>worktree := worktree (update_cursorignore w)\<rparr>"
  by (auto simp: update_cursorignore_def Let_def write_file_def split: option.splits if_splits)

lemma seeded_frame: "update_cursorignore (write_readme w) = w\<lparr>worktree := seeded_tree w\<rparr>"
proof -
  have "update_cursorignore (write_readme w) =
          (write_readme w)\<lparr>worktree := seeded_tree w\<rparr>"
    unfolding seeded_tree_def by (rule update_cursorignore_frame)
  also have "\<dots> = (w\<lparr>worktree := worktree (write_readme w)\<rparr>)\<lparr>worktree := seeded_tree w\<rparr>"
    using write_readme_frame[of w] by simp
  finally show ?thesis by simp
qed

lemma seeded_tree_calls [simp]: "seeded_tree (w\<lparr>calls := cs\<rparr>) = seeded_tree w"
  by (simp add: seeded_tree_def write_readme_def write_file_def update_cursorignore_def Let_def
      file_exists_def read_text_def split: option.splits)

lemma init_repository_effect:
  assumes g: "git_on_path w"
  shows "\<exists>cs. init_repository w =
           (Inr (), w\<lparr>calls := calls w @ cs,
                       repo := Some (case repo w of None \<Rightarrow> fresh_repo w | Some r \<Rightarrow> r)\<rparr>)"
proof (cases "repo w")
  case None
  let ?w1 = "w\<lparr>calls := calls w @ [Init], repo := Some (fresh_repo w)\<rparr>"
  have i: "run_git_command Init False w = (PyBool True, ?w1)"
    using g None by (simp add: run_git_command_def subprocess_run_def fresh_repo_def)
  have g1: "git_on_path ?w1" "repo ?w1 = Some (fresh_repo w)" using g by simp_all
  show ?thesis
    using None i run_git_in_repo[OF g1, of "Config ''user.name'' ''Codebase Switcher''" False]
      run_git_in_repo[of "w\<lparr>calls := calls w @ [Init, Config ''user.name'' ''Codebase Switcher''],
                            repo := Some (fresh_repo w)\<rparr>"
        "fresh_repo w" "Config ''user.email'' ''switcher@codebase.local''" False] g
    by (intro exI[of _ "[Init, Config ''user.name'' ''Codebase Switcher'',
                         Config ''user.email'' ''switcher@codebase.local'']"])
       (simp add: init_repository_def)
next
  case (Some r)
  then show ?thesis
    by (intro exI[of _ "[]"]) (simp add: init_repository_def world_repo_same)
qed

lemma head_chain_record_commit: "head_chain (record_commit m r) \<noteq> []"
  by (auto simp: record_commit_def head_chain_def update_conv' split: head_ref.splits)

lemma create_initial_commit_effect:
  assumes g: "git_on_path w" and r: "repo w = Some r"
  shows "create_initial_commit w =
     (if head_chain r \<noteq> [] then (Inr (), w\<lparr>calls := calls w @ [Log_oneline 1]\<rparr>)
      else if tree_eq (seeded_tree w) (head_tree r)
      then (Inl StageOrCommitFailed,
            w\<lparr>calls := calls w @ [Log_oneline 1, Add_all, Commit ''Initial commit''],
              repo := Some (r\<lparr>r_index := seeded_tree w\<rparr>), worktree := seeded_tree w\<rparr>)
      else (Inr (),
            w\<lparr>calls := calls w @ [Log_oneline 1, Add_all, Commit ''Initial commit''],
              repo := Some (record_commit ''Initial commit'' (r\<lparr>r_index := seeded_tree w\<rparr>)),
              worktree := seeded_tree w\<rparr>))"
proof (cases "head_chain r")
  case (Cons a c)
  obtain m t where a: "a = (m, t)" by (cases a)
  have "strip (CHR ''0'' # ''000000 '' @ m @ [newline]) \<noteq> []"
    by (rule strip_cons_nonspace) (simp add: is_space_def)
  then show ?thesis
    using Cons a run_git_in_repo[OF g r, of "Log_oneline 1" True]
    by (simp add: create_initial_commit_def world_repo_same r)
next
  case Nil
  let ?w1 = "w\<lparr>calls := calls w @ [Log_oneline 1]\<rparr>"
  have l: "run_git_command (Log_oneline 1) True w = (PyNone, ?w1)"
    using Nil run_git_in_repo[OF g r, of "Log_oneline 1" True]
    by (simp add: world_repo_same r)
  let ?w3 = "?w1\<lparr>worktree := seeded_tree w\<rparr>"
  have s: "update_cursorignore (write_readme ?w1) = ?w3"
    using seeded_frame[of ?w1] by simp
  have g3: "git_on_path ?w3" "repo ?w3 = Some r" using g r by simp_all
  let ?w4 = "?w3\<lparr>calls := calls ?w3 @ [Add_all], repo := Some (r\<lparr>r_index := seeded_tree w\<rparr>)\<rparr>"
  have a: "run_git_command Add_all False ?w3 = (PyBool True, ?w4)"
    using run_git_in_repo[OF g3, of Add_all False] by simp
  have g4: "git_on_path ?w4" "repo ?w4 = Some (r\<lparr>r_index := seeded_tree w\<rparr>)"
    using g by simp_all
  show ?thesis
    using Nil l s a run_git_in_repo[OF g4, of "Commit ''Initial commit''" False]
    by (simp add: create_initial_commit_def Let_def)
qed

lemma list_all_update:
  "P (k, v) \<Longrightarrow> list_all P al \<Longrightarrow> list_all P (AList.update k v al)"
  by (induction al) auto

lemma list_all_map_of:
  "list_all P al \<Longrightarrow> map_of al k = Some v \<Longrightarrow> P (k, v)"
  by (auto simp: list_all_iff dest: map_of_SomeD)

lemma wf_chain: "wf_repo r \<Longrightarrow> map_of (r_branches r) b = Some c \<Longrightarrow> c \<noteq> []"
  using list_all_map_of[of "\<lambda>(b, c). c \<noteq> []" "r_branches r" b c] by (simp add: wf_repo_def)

lemma uniform_tip:
  "uniform r \<Longrightarrow> map_of (r_branches r) b = Some c \<Longrightarrow> map_of (tip_tree c) = map_of (head_tree r)"
  using list_all_map_of[of "\<lambda>(b, c). tree_eq (tip_tree c) (head_tree r)" "r_branches r" b c]
  by (simp add: uniform_def tree_eq_iff)

lemma switch_tree_same: "map_of T = map_of H \<Longrightarrow> map_of (switch_tree H T X) = map_of X"
  by (rule ext) (simp add: map_of_switch_tree)

lemma tree_eq_cong: "map_of a = map_of a' \<Longrightarrow> map_of b = map_of b' \<Longrightarrow> tree_eq a b = tree_eq a' b'"
  by (simp add: tree_eq_iff)

text \<open>Branch creation: the new branch points where the head is.\<close>

lemma checkout_b_effect:
  assumes g: "git_on_path w" and r: "repo w = Some r"
    and n: "map_of (r_branches r) n = None" and c: "head_chain r \<noteq> []"
  shows "\<exists>w' r'. run_git_command (Checkout_b n) False w = (PyBool True, w') \<and>
           git_on_path w' \<and> repo w' = Some r' \<and> worktree w' = worktree w \<and>
           io_fail w' = io_fail w \<and> calls w' = calls w @ [Checkout_b n] \<and>
           r_head r' = OnBranch n \<and> r_index r' = r_index r \<and>
           r_branches r' = AList.update n (head_chain r) (r_branches r) \<and>
           head_chain r' = head_chain r"
  using g n c run_git_in_repo[OF g r, of "Checkout_b n" False]
  by (simp add: head_chain_def update_conv')

lemma checkout_effect:
  assumes g: "git_on_path w" and r: "repo w = Some r"
    and n: "map_of (r_branches r) n = Some c"
    and ok: "map_of (tip_tree c) = map_of (head_tree r) \<or> clean_state r (worktree w)"
  shows "\<exists>w' r'. run_git_command (Checkout n) False w = (PyBool True, w') \<and>
           git_on_path w' \<and> repo w' = Some r' \<and> io_fail w' = io_fail w \<and>
           calls w' = calls w @ [Checkout n] \<and>
           r_head r' = OnBranch n \<and> r_branches r' = r_branches r \<and>
           head_chain r' = c \<and>
           (map_of (tip_tree c) = map_of (head_tree r) \<longrightarrow>
              map_of (r_index r') = map_of (r_index r) \<and>
              map_of (worktree w') = map_of (worktree w)) \<and>
           (clean_state r (worktree w) \<longrightarrow> clean_state r' (worktree w'))"
proof -
  let ?H = "head_tree r" and ?T = "tip_tree c"
  have nc: "\<not> checkout_conflict ?H ?T (r_index r) (worktree w)"
    using ok by (auto simp: checkout_conflict_iff clean_state_maps)
  let ?r' = "r\<lparr>r_head := OnBranch n, r_index := switch_tree ?H ?T (r_index r)\<rparr>"
  let ?W' = "switch_tree ?H ?T (worktree w)"
  have e: "run_git_command (Checkout n) False w =
             (PyBool True, w\<lparr>calls := calls w @ [Checkout n], repo := Some ?r', worktree := ?W'\<rparr>)"
    using nc n run_git_in_repo[OF g r, of "Checkout n" False] by simp
  have hc: "head_chain ?r' = c" using n by (simp add: head_chain_def)
  have ht: "head_tree ?r' = ?T" using hc by (simp add: head_tree_def)
  have same: "map_of (switch_tree ?H ?T X) = map_of X" if "map_of ?T = map_of ?H" for X
    using that by (rule switch_tree_same)
  have cl: "clean_state ?r' ?W'" if "clean_state r (worktree w)"
    using that unfolding clean_state_maps ht
    by (auto simp: fun_eq_iff map_of_switch_tree)
  show ?thesis
    using e g hc same cl by auto
qed

lemma ready_cong:
  assumes "ready r W"
    and "wf_repo r'" and "head_chain r' = head_chain r"
    and "map_of (r_index r') = map_of (r_index r)" and "map_of W' = map_of W"
  shows "ready r' W'"
  using assms by (simp add: ready_def clean_state_maps head_tree_def)

lemma uniform_cong:
  assumes "uniform r" and "map_of (head_tree r') = map_of (head_tree r)"
    and "r_branches r' = r_branches r"
  shows "uniform r'"
  using assms by (simp add: uniform_def tree_eq_iff)

lemma uniform_update:
  assumes "uniform r" and "map_of (head_tree r') = map_of (head_tree r)"
    and "r_branches r' = AList.update n c (r_branches r)"
    and "map_of (tip_tree c) = map_of (head_tree r)"
  shows "uniform r'"
  using assms by (auto simp: uniform_def tree_eq_iff intro!: list_all_update)

lemma wf_update:
  "wf_repo r \<Longrightarrow> c \<noteq> [] \<Longrightarrow> r_branches r' = AList.update n c (r_branches r) \<Longrightarrow> wf_repo r'"
  by (auto simp: wf_repo_def intro!: list_all_update)

lemma status_in_repo:
  assumes g: "git_on_path w" and r: "repo w = Some r"
  shows "\<exists>v. run_git_command Status_porcelain True w =
           (v, w\<lparr>calls := calls w @ [Status_porcelain]\<rparr>) \<and>
           (truthy v \<longleftrightarrow> \<not> clean_state r (worktree w))"
  using run_git_in_repo[OF g r, of Status_porcelain True]
  by (simp add: status_clean world_repo_same r)

lemma ensure_preedit_effect:
  assumes g: "git_on_path w" and r: "repo w = Some r" and rd: "ready r (worktree w)"
  shows "\<exists>w' r'. ensure_preedit w = (Inr (), w') \<and>
           git_on_path w' \<and> repo w' = Some r' \<and> io_fail w' = io_fail w \<and>
           ready r' (worktree w') \<and> on_preedit r' \<and>
           (on_preedit r \<longrightarrow>
              r_branches r' = r_branches r \<and>
              calls w' = calls w @ [Branch_list ''preedit'', Checkout ''preedit'']) \<and>
           (uniform r \<longrightarrow> uniform r' \<and> map_of (worktree w') = map_of (worktree w))"
proof -
  have rn: "ref_name ''preedit''" by (simp add: ref_name_def is_space_def)
  let ?w1 = "w\<lparr>calls := calls w @ [Branch_list ''preedit'']\<rparr>"
  have e: "branch_exists ''preedit'' w = (map_of (r_branches r) ''preedit'' \<noteq> None, ?w1)"
    by (rule branch_exists_in_repo[OF g r rn])
  have g1: "git_on_path ?w1" "repo ?w1 = Some r" using g r by simp_all
  from rd have wf: "wf_repo r" and ch: "head_chain r \<noteq> []"
    and cl: "clean_state r (worktree w)" by (simp_all add: ready_def)
  show ?thesis
  proof (cases "map_of (r_branches r) ''preedit''")
    case None
    from checkout_b_effect[OF g1 None ch] obtain w2 r2 where
      b: "run_git_command (Checkout_b ''preedit'') False ?w1 = (PyBool True, w2)"
         "git_on_path w2" "repo w2 = Some r2" "worktree w2 = worktree w" "io_fail w2 = io_fail w"
         "r_head r2 = OnBranch ''preedit''" "r_index r2 = r_index r"
         "r_branches r2 = AList.update ''preedit'' (head_chain r) (r_branches r)"
         "head_chain r2 = head_chain r"
      by auto
    have rd2: "ready r2 (worktree w2)"
      using rd wf_update[OF wf ch b(8)] b by (intro ready_cong[OF rd]) simp_all
    from status_in_repo[OF b(2,3)] rd2 obtain v where
      s: "run_git_command Status_porcelain True w2 =
            (v, w2\<lparr>calls := calls w2 @ [Status_porcelain]\<rparr>)" "\<not> truthy v"
      by (auto simp: ready_def)
    have en: "ensure_preedit w = (Inr (), w2\<lparr>calls := calls w2 @ [Status_porcelain]\<rparr>)"
      using None by (simp add: ensure_preedit_def e b(1) s)
    have op: "on_preedit r2" using b by (simp add: on_preedit_def update_conv')
    have nop: "\<not> on_preedit r" using None by (simp add: on_preedit_def)
    have un: "uniform r2" if "uniform r"
      using that b by (intro uniform_update[OF that, of r2 "''preedit''" "head_chain r"])
        (simp_all add: head_tree_def)
    show ?thesis
      using en b rd2 op nop un by auto
  next
    case (Some c)
    from checkout_effect[OF g1 Some] cl obtain w2 r2 where
      b: "run_git_command (Checkout ''preedit'') False ?w1 = (PyBool True, w2)"
         "git_on_path w2" "repo w2 = Some r2" "io_fail w2 = io_fail w"
         "calls w2 = calls w @ [Branch_list ''preedit'', Checkout ''preedit'']"
         "r_head r2 = OnBranch ''preedit''" "r_branches r2 = r_branches r"
         "head_chain r2 = c"
         "map_of (tip_tree c) = map_of (head_tree r) \<longrightarrow>
              map_of (r_index r2) = map_of (r_index r) \<and>
              map_of (worktree w2) = map_of (worktree w)"
         "clean_state r2 (worktree w2)"
      by auto
    have en: "ensure_preedit w = (Inr (), w2)"
      using Some by (simp add: ensure_preedit_def e b(1))
    have rd2: "ready r2 (worktree w2)"
      using wf b wf_chain[OF wf Some] by (simp add: ready_def wf_repo_def)
    have op: "on_preedit r2" using b Some by (simp add: on_preedit_def)
    have un: "uniform r2 \<and> map_of (worktree w2) = map_of (worktree w)" if "uniform r"
    proof -
      have t: "map_of (tip_tree c) = map_of (head_tree r)" by (rule uniform_tip[OF that Some])
      have "map_of (head_tree r2) = map_of (head_tree r)" using t b(8) by (simp add: head_tree_def)
      with that b t show ?thesis by (auto intro: uniform_cong)
    qed
    show ?thesis
      using en b rd2 op un by auto
  qed
qed

lemma on_preedit_chain:
  "on_preedit r \<Longrightarrow> map_of (r_branches r) ''preedit'' = Some (head_chain r)"
  by (auto simp: on_preedit_def head_chain_def)

lemma create_variants_effect:
  assumes g: "git_on_path w" and r: "repo w = Some r"
    and rd: "ready r (worktree w)" and op: "on_preedit r"
    and ns: "\<forall>n \<in> set ns. ref_name n \<and> n \<noteq> ''preedit''"
  shows "\<exists>w' r'. create_variants ns w = (Inr (), w') \<and>
           git_on_path w' \<and> repo w' = Some r' \<and> io_fail w' = io_fail w \<and>
           ready r' (worktree w') \<and> on_preedit r' \<and>
           (\<forall>b. map_of (r_branches r) b \<noteq> None \<longrightarrow> map_of (r_branches r') b \<noteq> None) \<and>
           (\<forall>n \<in> set ns. map_of (r_branches r') n \<noteq> None) \<and>
           ((\<forall>n \<in> set ns. map_of (r_branches r) n \<noteq> None) \<longrightarrow>
              r' = r \<and> worktree w' = worktree w \<and>
              calls w' = calls w @ map Branch_list ns) \<and>
           (uniform r \<longrightarrow> uniform r' \<and> map_of (worktree w') = map_of (worktree w))"
  using assms
proof (induction ns arbitrary: w r)
  case Nil
  then show ?case by simp
next
  case (Cons n ns)
  note g = Cons.prems(1) and r = Cons.prems(2) and rd = Cons.prems(3) and op = Cons.prems(4)
  have rn: "ref_name n" and np: "n \<noteq> ''preedit''" using Cons.prems(5) by simp_all
  have ns': "\<forall>n \<in> set ns. ref_name n \<and> n \<noteq> ''preedit''" using Cons.prems(5) by simp
  let ?w1 = "w\<lparr>calls := calls w @ [Branch_list n]\<rparr>"
  have e: "branch_exists n w = (map_of (r_branches r) n \<noteq> None, ?w1)"
    by (rule branch_exists_in_repo[OF g r rn])
  have g1: "git_on_path ?w1" "repo ?w1 = Some r" "ready r (worktree ?w1)"
    using g r rd by simp_all
  from rd have wf: "wf_repo r" and ch: "head_chain r \<noteq> []"
    and cl: "clean_state r (worktree w)" by (simp_all add: ready_def)
  show ?case
  proof (cases "map_of (r_branches r) n")
    case (Some c)
    from Cons.IH[OF g1 op ns'] obtain w' r' where
      i: "create_variants ns ?w1 = (Inr (), w')"
         "git_on_path w'" "repo w' = Some r'" "io_fail w' = io_fail w"
         "ready r' (worktree w')" "on_preedit r'"
         "\<forall>b. map_of (r_branches r) b \<noteq> None \<longrightarrow> map_of (r_branches r') b \<noteq> None"
         "\<forall>n \<in> set ns. map_of (r_branches r') n \<noteq> None"
         "(\<forall>n \<in> set ns. map_of (r_branches r) n \<noteq> None) \<longrightarrow>
              r' = r \<and> worktree w' = worktree w \<and>
              calls w' = calls w @ Branch_list n # map Branch_list ns"
         "uniform r \<longrightarrow> uniform r' \<and> map_of (worktree w') = map_of (worktree w)"
      by auto
    have en: "create_variants (n # ns) w = (Inr (), w')"
      using Some by (simp add: e i(1))
    show ?thesis
      using en i Some by auto
  next
    case None
    from checkout_b_effect[OF g1(1,2) None ch] obtain w2 r2 where
      b: "run_git_command (Checkout_b n) False ?w1 = (PyBool True, w2)"
         "git_on_path w2" "repo w2 = Some r2" "worktree w2 = worktree w" "io_fail w2 = io_fail w"
         "r_head r2 = OnBranch n" "r_index r2 = r_index r"
         "r_branches r2 = AList.update n (head_chain r) (r_branches r)"
         "head_chain r2 = head_chain r"
      by auto
    have p2: "map_of (r_branches r2) ''preedit'' = Some (head_chain r)"
      using on_preedit_chain[OF op] np b(8) by (simp add: update_conv')
    have t2: "map_of (tip_tree (head_chain r)) = map_of (head_tree r2)"
      using b(9) by (simp add: head_tree_def)
    from checkout_effect[OF b(2,3) p2] t2 obtain w3 r3 where
      c: "run_git_command (Checkout ''preedit'') False w2 = (PyBool True, w3)"
         "git_on_path w3" "repo w3 = Some r3" "io_fail w3 = io_fail w2"
         "r_head r3 = OnBranch ''preedit''" "r_branches r3 = r_branches r2"
         "head_chain r3 = head_chain r"
         "map_of (r_index r3) = map_of (r_index r2)"
         "map_of (worktree w3) = map_of (worktree w2)"
      by auto
    have wf3: "wf_repo r3"
      using wf_update[OF wf ch, of r3 n] b(8) c(6) by simp
    have rd3: "ready r3 (worktree w3)"
      using c b by (intro ready_cong[OF rd wf3]) simp_all
    have op3: "on_preedit r3" using c p2 by (simp add: on_preedit_def)
    have ht3: "head_tree r3 = head_tree r" using c(7) by (simp add: head_tree_def)
    have un3: "uniform r3" if "uniform r"
      using that b(8) c(6) ht3
      by (intro uniform_update[OF that, of r3 n "head_chain r"]) (simp_all add: head_tree_def)
    from Cons.IH[OF c(2,3) rd3 op3 ns'] obtain w' r' where
      i: "create_variants ns w3 = (Inr (), w')"
         "git_on_path w'" "repo w' = Some r'" "io_fail w' = io_fail w3"
         "ready r' (worktree w')" "on_preedit r'"
         "\<forall>b. map_of (r_branches r3) b \<noteq> None \<longrightarrow> map_of (r_branches r') b \<noteq> None"
         "\<forall>n \<in> set ns. map_of (r_branches r') n \<noteq> None"
         "uniform r3 \<longrightarrow> uniform r' \<and> map_of (worktree w') = map_of (worktree w3)"
      by auto
    have en: "create_variants (n # ns) w = (Inr (), w')"
      using None by (simp add: e b(1) c(1) i(1))
    have gr: "map_of (r_branches r3) x \<noteq> None" if "map_of (r_branches r) x \<noteq> None \<or> x = n" for x
      using that by (auto simp: c(6) b(8) update_conv')
    show ?thesis
      using en i b c None gr un3 by auto
  qed
qed

lemma final_checkout_effect:
  assumes g: "git_on_path w" and r: "repo w = Some r"
    and rd: "ready r (worktree w)" and op: "on_preedit r"
  shows "\<exists>w' r'. run_git_command (Checkout ''preedit'') False w = (PyBool True, w') \<and>
           git_on_path w' \<and> repo w' = Some r' \<and> io_fail w' = io_fail w \<and>
           calls w' = calls w @ [Checkout ''preedit''] \<and>
           ready r' (worktree w') \<and> on_preedit r' \<and> r_branches r' = r_branches r \<and>
           map_of (worktree w') = map_of (worktree w) \<and>
           (uniform r \<longrightarrow> uniform r')"
proof -
  have t: "map_of (tip_tree (head_chain r)) = map_of (head_tree r)" by (simp add: head_tree_def)
  from rd have wf: "wf_repo r" by (simp add: ready_def)
  from checkout_effect[OF g r on_preedit_chain[OF op]] t obtain w' r' where
    c: "run_git_command (Checkout ''preedit'') False w = (PyBool True, w')"
       "git_on_path w'" "repo w' = Some r'" "io_fail w' = io_fail w"
       "calls w' = calls w @ [Checkout ''preedit'']"
       "r_head r' = OnBranch ''preedit''" "r_branches r' = r_branches r"
       "head_chain r' = head_chain r"
       "map_of (r_index r') = map_of (r_index r)"
       "map_of (worktree w') = map_of (worktree w)"
    by auto
  have wf': "wf_repo r'" using wf c(7) by (simp add: wf_repo_def)
  have rd': "ready r' (worktree w')" using c by (intro ready_cong[OF rd wf']) simp_all
  have op': "on_preedit r'" using c op by (simp add: on_preedit_def)
  have un: "uniform r'" if "uniform r"
    using that c by (intro uniform_cong[OF that]) (simp_all add: head_tree_def)
  show ?thesis using c rd' op' un by auto
qed

lemma wf_record_commit: "wf_repo r \<Longrightarrow> wf_repo (record_commit m r)"
  by (auto simp: record_commit_def wf_repo_def split: head_ref.splits intro!: list_all_update)

lemma wf_index [simp]: "wf_repo (r\<lparr>r_index := x\<rparr>) = wf_repo r"
  by (simp add: wf_repo_def)

lemma tail_effect:
  assumes g: "git_on_path w" and r: "repo w = Some r" and rd: "ready r (worktree w)"
  shows "\<exists>w' r'.
           create_branches w = (Inr (), w') \<and>
           git_on_path w' \<and> repo w' = Some r' \<and> io_fail w' = io_fail w \<and>
           settled r' (worktree w') \<and>
           (settled r (worktree w) \<longrightarrow>
              r_branches r' = r_branches r \<and>
              calls w' = calls w @ [Branch_list ''preedit'', Checkout ''preedit'',
                                    Branch_list ''gpt'', Branch_list ''sonnet'',
                                    Checkout ''preedit'']) \<and>
           (uniform r \<longrightarrow> uniform r' \<and> map_of (worktree w') = map_of (worktree w))"
proof -
  from ensure_preedit_effect[OF g r rd] obtain w4 r4 where
    a: "ensure_preedit w = (Inr (), w4)" "git_on_path w4" "repo w4 = Some r4"
       "io_fail w4 = io_fail w" "ready r4 (worktree w4)" "on_preedit r4"
       "on_preedit r \<longrightarrow> r_branches r4 = r_branches r \<and>
              calls w4 = calls w @ [Branch_list ''preedit'', Checkout ''preedit'']"
       "uniform r \<longrightarrow> uniform r4 \<and> map_of (worktree w4) = map_of (worktree w)"
    by blast
  have ns: "\<forall>n \<in> set [''gpt'', ''sonnet'']. ref_name n \<and> n \<noteq> ''preedit''"
    by (simp add: ref_name_def is_space_def)
  from create_variants_effect[OF a(2,3,5,6) ns] obtain w5 r5 where
    b: "create_variants [''gpt'', ''sonnet''] w4 = (Inr (), w5)" "git_on_path w5"
       "repo w5 = Some r5" "io_fail w5 = io_fail w4" "ready r5 (worktree w5)" "on_preedit r5"
       "\<forall>n \<in> set [''gpt'', ''sonnet'']. map_of (r_branches r5) n \<noteq> None"
       "(\<forall>n \<in> set [''gpt'', ''sonnet'']. map_of (r_branches r4) n \<noteq> None) \<longrightarrow>
              r5 = r4 \<and> worktree w5 = worktree w4 \<and>
              calls w5 = calls w4 @ map Branch_list [''gpt'', ''sonnet'']"
       "uniform r4 \<longrightarrow> uniform r5 \<and> map_of (worktree w5) = map_of (worktree w4)"
    by blast
  from final_checkout_effect[OF b(2,3,5,6)] obtain w6 r6 where
    c: "run_git_command (Checkout ''preedit'') False w5 = (PyBool True, w6)"
       "git_on_path w6" "repo w6 = Some r6" "io_fail w6 = io_fail w5"
       "calls w6 = calls w5 @ [Checkout ''preedit'']"
       "ready r6 (worktree w6)" "on_preedit r6" "r_branches r6 = r_branches r5"
       "map_of (worktree w6) = map_of (worktree w5)"
       "uniform r5 \<longrightarrow> uniform r6"
    by blast
  have s6: "settled r6 (worktree w6)" using c b(7) by (simp add: settled_def)
  have same: "r_branches r6 = r_branches r \<and>
              calls w6 = calls w @ [Branch_list ''preedit'', Checkout ''preedit'',
                                    Branch_list ''gpt'', Branch_list ''sonnet'',
                                    Checkout ''preedit'']"
    if "settled r (worktree w)"
  proof -
    from that have op: "on_preedit r" and ex: "map_of (r_branches r) ''gpt'' \<noteq> None"
      "map_of (r_branches r) ''sonnet'' \<noteq> None" by (simp_all add: settled_def)
    from a(7) op have 4: "r_branches r4 = r_branches r"
      "calls w4 = calls w @ [Branch_list ''preedit'', Checkout ''preedit'']" by simp_all
    from b(8) 4 ex have 5: "r5 = r4" "calls w5 = calls w4 @ [Branch_list ''gpt'', Branch_list ''sonnet'']"
      by simp_all
    show ?thesis using 4 5 c by simp
  qed
  have un: "uniform r6 \<and> map_of (worktree w6) = map_of (worktree w)" if "uniform r"
    using that a(8) b(9) c(9,10) by simp
  show ?thesis
    using a(1,4) b(1,4) c(1,2,3,4) s6 same un by (auto simp: create_branches_def simp del: create_variants.simps)
qed

lemma initialize_message:
  "initialize self w =
     (if \<not> check_git_available w then (Inl ToolUnavailable, w)
      else
        (case init_repository w of
           (Inl e, w1) \<Rightarrow> (Inl e, w1)
         | (Inr u1, w1) \<Rightarrow>
        (case create_initial_commit w1 of
           (Inl e, w2) \<Rightarrow> (Inl e, w2)
         | (Inr u2, w2) \<Rightarrow>
        (case auto_commit init_message w2 of
           (Inl e, w3) \<Rightarrow> (Inl e, w3)
         | (Inr u3, w3) \<Rightarrow> create_branches w3))))"
  by (simp add: initialize_def)

lemma seeded_tree_repo [simp]: "seeded_tree (w\<lparr>repo := x\<rparr>) = seeded_tree w"
  by (simp add: seeded_tree_def write_readme_def write_file_def update_cursorignore_def Let_def
      file_exists_def read_text_def split: option.splits)

lemma create_initial_commit_ok:
  assumes g: "git_on_path w" and r: "repo w = Some r" and wf: "wf_repo r"
    and ok: "create_initial_commit w = (Inr u, w2)"
  shows "git_on_path w2 \<and> io_fail w2 = io_fail w \<and>
         (\<exists>r2. repo w2 = Some r2 \<and> wf_repo r2 \<and> head_chain r2 \<noteq> [])"
  using ok g r wf create_initial_commit_effect[OF g r]
  by (auto simp: head_chain_record_commit wf_record_commit split: if_splits)

lemma auto_commit_ok:
  assumes g: "git_on_path w" and r: "repo w = Some r" and wf: "wf_repo r"
    and ch: "head_chain r \<noteq> []"
    and ok: "auto_commit msg w = (Inr u, w3)"
  shows "git_on_path w3 \<and> io_fail w3 = io_fail w \<and>
         (\<exists>r3. repo w3 = Some r3 \<and> ready r3 (worktree w3))"
  using ok g r wf ch auto_commit_in_repo[OF g r, of msg]
  by (auto simp: ready_def head_chain_record_commit wf_record_commit clean_after_commit
      split: if_splits)

lemma initialize_settles:
  assumes ok: "initialize self w = (Inr (), w')"
    and wf0: "case repo w of None \<Rightarrow> True | Some r \<Rightarrow> wf_repo r"
  shows "git_on_path w' \<and> (\<exists>r'. repo w' = Some r' \<and> settled r' (worktree w'))"
proof -
  have g: "git_on_path w"
    using ok by (auto simp: initialize_def check_git_available_def split: if_splits)
  from ok g obtain w1 w2 w3 where
    i: "init_repository w = (Inr (), w1)" "create_initial_commit w1 = (Inr (), w2)"
       "auto_commit init_message w2 = (Inr (), w3)" "create_branches w3 = (Inr (), w')"
    by (auto simp: initialize_message check_git_available_def split: prod.splits sum.splits)
  from init_repository_effect[OF g] i(1) obtain cs where
    w1: "w1 = w\<lparr>calls := calls w @ cs,
                repo := Some (case repo w of None \<Rightarrow> fresh_repo w | Some r \<Rightarrow> r)\<rparr>"
    by auto
  let ?r1 = "case repo w of None \<Rightarrow> fresh_repo w | Some r \<Rightarrow> r"
  have g1: "git_on_path w1" "repo w1 = Some ?r1" using g w1 by simp_all
  have wf1: "wf_repo ?r1" using wf0 by (auto simp: fresh_repo_def wf_repo_def split: option.splits)
  from create_initial_commit_ok[OF g1 wf1 i(2)] obtain r2 where
    2: "git_on_path w2" "repo w2 = Some r2" "wf_repo r2" "head_chain r2 \<noteq> []" by blast
  from auto_commit_ok[OF 2 i(3)] obtain r3 where
    3: "git_on_path w3" "repo w3 = Some r3" "ready r3 (worktree w3)" by blast
  from tail_effect[OF 3] i(4) show ?thesis by auto
qed

lemma initialize_again:
  assumes g: "git_on_path w" and r: "repo w = Some r" and s: "settled r (worktree w)"
  shows "\<exists>w' r'. initialize self w = (Inr (), w') \<and> repo w' = Some r' \<and>
           settled r' (worktree w') \<and> r_branches r' = r_branches r \<and>
           calls w' = calls w @ [Log_oneline 1, Status_porcelain,
                                 Branch_list ''preedit'', Checkout ''preedit'',
                                 Branch_list ''gpt'', Branch_list ''sonnet'',
                                 Checkout ''preedit'']"
proof -
  from s have rd: "ready r (worktree w)" by (simp add: settled_def)
  then have ch: "head_chain r \<noteq> []" and cl: "clean_state r (worktree w)"
    by (simp_all add: ready_def)
  have i1: "init_repository w = (Inr (), w)" using r by (simp add: init_repository_def)
  let ?w2 = "w\<lparr>calls := calls w @ [Log_oneline 1]\<rparr>"
  have i2: "create_initial_commit w = (Inr (), ?w2)"
    using create_initial_commit_effect[OF g r] ch by simp
  have g2: "git_on_path ?w2" "repo ?w2 = Some r" using g r by simp_all
  let ?w3 = "w\<lparr>calls := calls w @ [Log_oneline 1, Status_porcelain]\<rparr>"
  have i3: "auto_commit init_message ?w2 = (Inr (), ?w3)"
    using auto_commit_in_repo[OF g2, of init_message] cl by simp
  have g3: "git_on_path ?w3" "repo ?w3 = Some r" "ready r (worktree ?w3)"
    "settled r (worktree ?w3)"
    using g r rd s by simp_all
  from tail_effect[OF g3(1,2,3)] g3(4) obtain w' r' where
    t: "create_branches ?w3 = (Inr (), w')" "repo w' = Some r'" "settled r' (worktree w')"
       "r_branches r' = r_branches r"
       "calls w' = calls ?w3 @ [Branch_list ''preedit'', Checkout ''preedit'',
                                Branch_list ''gpt'', Branch_list ''sonnet'',
                                Checkout ''preedit'']"
    by blast
  have "initialize self w = (Inr (), w')"
    using g i1 i2 i3 t(1) by (simp add: initialize_message check_git_available_def)
  with t show ?thesis by simp
qed

text \<open>
  Claim C3. When \<open>initialize\<close> succeeds (in a repository, if there is one, whose branches
  all have a commit), the head is on \<open>preedit\<close> and the three managed branches exist;
  a second call then succeeds as well, leaves every branch and the head as they are, and
  runs the client with \<open>log\<close>, \<open>status\<close>, the three \<open>branch --list\<close> and the checkouts
  of \<open>preedit\<close> only: nothing is created or committed.
\<close>

theorem initialize_idempotent:
  assumes ok: "initialize self w = (Inr (), w1)"
    and wf0: "case repo w of None \<Rightarrow> True | Some r \<Rightarrow> wf_repo r"
  shows "\<exists>r1 w2 r2. repo w1 = Some r1 \<and> r_head r1 = OnBranch ''preedit'' \<and>
           map_of (r_branches r1) ''preedit'' \<noteq> None \<and>
           map_of (r_branches r1) ''gpt'' \<noteq> None \<and>
           map_of (r_branches r1) ''sonnet'' \<noteq> None \<and>
           initialize self w1 = (Inr (), w2) \<and> repo w2 = Some r2 \<and>
           r_head r2 = OnBranch ''preedit'' \<and> r_branches r2 = r_branches r1 \<and>
           calls w2 = calls w1 @ [Log_oneline 1, Status_porcelain,
                                  Branch_list ''preedit'', Checkout ''preedit'',
                                  Branch_list ''gpt'', Branch_list ''sonnet'',
                                  Checkout ''preedit'']"
proof -
  from initialize_settles[OF ok wf0] obtain r1 where
    1: "git_on_path w1" "repo w1 = Some r1" "settled r1 (worktree w1)" by blast
  from initialize_again[OF 1, of self] obtain w2 r2 where
    2: "initialize self w1 = (Inr (), w2)" "repo w2 = Some r2" "settled r2 (worktree w2)"
       "r_branches r2 = r_branches r1"
       "calls w2 = calls w1 @ [Log_oneline 1, Status_porcelain,
                               Branch_list ''preedit'', Checkout ''preedit'',
                               Branch_list ''gpt'', Branch_list ''sonnet'',
                               Checkout ''preedit'']"
    by blast
  show ?thesis
    using 1 2 by (auto simp: settled_def on_preedit_def)
qed

lemma split_on_nonempty: "split_on c s \<noteq> []"
  by (induction s) (auto split: list.splits)

lemma split_on_append: "split_on c (a @ c # b) = split_on c a @ split_on c b"
proof (induction a)
  case Nil
  show ?case by simp
next
  case (Cons x a)
  obtain l ls where s: "split_on c a = l # ls"
    using split_on_nonempty[of c a] by (cases "split_on c a") auto
  show ?case using Cons s by simp
qed

lemma split_on_no_sep: "c \<notin> set a \<Longrightarrow> split_on c a = [a]"
  by (induction a) auto

lemma rstrip_append_nonspace:
  "b \<noteq> [] \<Longrightarrow> \<not> is_space (last b) \<Longrightarrow> rstrip (a @ b) = a @ b"
  by (cases b rule: rev_cases) (auto simp: rstrip_def)

lemma rstrip_last: "rstrip s \<noteq> [] \<Longrightarrow> \<not> is_space (last (rstrip s))"
proof -
  assume a: "rstrip s \<noteq> []"
  then have "dropWhile is_space (rev s) \<noteq> []" by (simp add: rstrip_def)
  then have "\<not> is_space (hd (dropWhile is_space (rev s)))" by (rule hd_dropWhile)
  then show ?thesis using a by (simp add: rstrip_def last_rev)
qed

lemma lstrip_append:
  "u \<noteq> [] \<Longrightarrow> \<not> is_space (last u) \<Longrightarrow> lstrip (u @ t) = lstrip u @ t"
proof -
  assume "u \<noteq> []" "\<not> is_space (last u)"
  then have "\<exists>x \<in> set u. \<not> is_space x" using last_in_set by blast
  then show ?thesis unfolding lstrip_def by (auto simp: dropWhile_append1)
qed

lemma lstrip_newlines:
  "x \<noteq> [] \<Longrightarrow> \<not> is_space (hd x) \<Longrightarrow> lstrip (newline # newline # x @ y) = x @ y"
  by (cases x) (auto simp: lstrip_def)

lemma entry_facts:
  "newline \<notin> set ignore_comment" "newline \<notin> set switcher_entry"
  "switcher_entry \<noteq> []" "ignore_comment \<noteq> switcher_entry"
  "\<not> is_space (hd ignore_comment)" "\<not> is_space (last switcher_entry)"
  "ignore_comment \<noteq> []"
  by (simp_all add: ignore_comment_def switcher_entry_def newline_def is_space_def)

lemma strip_appended:
  "strip (appended_entry s) =
     (if rstrip s = [] then ignore_comment @ [newline] @ switcher_entry
      else strip s @ [newline, newline] @ ignore_comment @ [newline] @ switcher_entry)"
proof -
  let ?t = "[newline, newline] @ ignore_comment @ [newline] @ switcher_entry"
  have a: "appended_entry s = (rstrip s @ ?t) @ [newline]" by (simp add: appended_entry_def)
  have lt: "last ?t = last switcher_entry" using entry_facts(3) by simp
  have r: "rstrip (appended_entry s) = rstrip s @ ?t"
    unfolding a rstrip_snoc_space[OF is_space_newline]
    by (rule rstrip_append_nonspace) (use entry_facts lt in simp_all)
  show ?thesis
  proof (cases "rstrip s = []")
    case True
    have "lstrip ?t = ignore_comment @ [newline] @ switcher_entry"
      using lstrip_newlines[OF entry_facts(7,5), of "[newline] @ switcher_entry"] by simp
    then show ?thesis using True r by (simp add: strip_def)
  next
    case False
    have "lstrip (rstrip s @ ?t) = lstrip (rstrip s) @ ?t"
      by (rule lstrip_append[OF False rstrip_last[OF False]])
    then show ?thesis using False r by (simp add: strip_def)
  qed
qed

lemma entry_lines_appended:
  "entry_lines (appended_entry s) =
     (if rstrip s = [] then [ignore_comment, switcher_entry]
      else entry_lines s @ [[], ignore_comment, switcher_entry])"
proof -
  have 1: "split_on newline (ignore_comment @ newline # switcher_entry) =
             [ignore_comment, switcher_entry]"
    using entry_facts(1,2) by (simp add: split_on_append split_on_no_sep)
  have 2: "split_on newline (x @ newline # newline # ignore_comment @ newline # switcher_entry) =
             split_on newline x @ [[], ignore_comment, switcher_entry]" for x
    using 1 split_on_append[of newline x "newline # ignore_comment @ newline # switcher_entry"]
      split_on_append[of newline "[]" "ignore_comment @ newline # switcher_entry"]
    by simp
  show ?thesis
    using 1 2 by (simp add: entry_lines_def strip_appended)
qed

lemma entry_count_appended:
  "switcher_entry \<notin> set (entry_lines s) \<Longrightarrow> entry_count (appended_entry s) = 1"
  using entry_facts(3,4)
  by (auto simp: entry_count_def entry_lines_appended count_list_0_iff)

lemma entry_count_created:
  "entry_count (ignore_comment @ [newline] @ switcher_entry @ [newline]) = 1"
proof -
  have "ignore_comment @ [newline] @ switcher_entry @ [newline] =
          [] @ ignore_comment @ [newline] @ switcher_entry @ [newline]" by simp
  moreover have "strip ((ignore_comment @ [newline] @ switcher_entry) @ [newline]) =
          ignore_comment @ [newline] @ switcher_entry"
    using entry_facts
    by (intro strip_line) (auto simp: hd_append)
  ultimately show ?thesis
    using entry_facts(1,2,3,4)
    by (simp add: entry_count_def entry_lines_def split_on_append split_on_no_sep)
qed

lemma seeded_cursorignore:
  assumes io: "[''.cursorignore''] \<notin> set (io_fail w)"
  shows "map_of (seeded_tree w) [''.cursorignore''] =
     (case map_of (worktree w) [''.cursorignore''] of
        None \<Rightarrow> Some (Text (ignore_comment @ [newline] @ switcher_entry @ [newline]))
      | Some (Text s) \<Rightarrow>
          Some (Text (if switcher_entry \<in> set (entry_lines s) then s else appended_entry s))
      | Some (Zip ms) \<Rightarrow> Some (Zip ms))"
  using io
  by (auto simp: seeded_tree_def write_readme_def write_file_def update_cursorignore_def Let_def
      file_exists_def read_text_def update_conv' entry_lines_def appended_entry_def
      split: option.splits content.splits)

lemma uniform_first_commit: "r_branches r = [] \<Longrightarrow> uniform (record_commit m r)"
  by (auto simp: uniform_def head_tree_record_commit tree_eq_iff)
     (auto simp: record_commit_def tip_tree_def split: head_ref.splits)

lemma cursorignore_text_cong: "map_of W = map_of W' \<Longrightarrow> cursorignore_text W = cursorignore_text W'"
  by (simp add: cursorignore_text_def)

lemma first_initialize_worktree:
  assumes ok: "initialize self w = (Inr (), w')" and nc: "no_commits w"
  shows "map_of (worktree w') = map_of (seeded_tree w)"
proof -
  have g: "git_on_path w"
    using ok by (auto simp: initialize_def check_git_available_def split: if_splits)
  from ok g obtain w1 w2 w3 where
    i: "init_repository w = (Inr (), w1)" "create_initial_commit w1 = (Inr (), w2)"
       "auto_commit init_message w2 = (Inr (), w3)" "create_branches w3 = (Inr (), w')"
    by (auto simp: initialize_message check_git_available_def split: prod.splits sum.splits)
  let ?r1 = "case repo w of None \<Rightarrow> fresh_repo w | Some r \<Rightarrow> r"
  from init_repository_effect[OF g] i(1) obtain cs where
    w1: "w1 = w\<lparr>calls := calls w @ cs, repo := Some ?r1\<rparr>"
    by auto
  have g1: "git_on_path w1" "repo w1 = Some ?r1" using g w1 by simp_all
  have e1: "r_branches ?r1 = []" "head_chain ?r1 = []"
    using nc by (auto simp: no_commits_def fresh_repo_def head_chain_def split: option.splits)
  have s1: "seeded_tree w1 = seeded_tree w" using w1 by simp
  let ?S = "seeded_tree w"
  let ?r2 = "record_commit ''Initial commit'' (?r1\<lparr>r_index := ?S\<rparr>)"
  from create_initial_commit_effect[OF g1] e1(2) i(2) s1 have
    w2: "w2 = w1\<lparr>calls := calls w1 @ [Log_oneline 1, Add_all, Commit ''Initial commit''],
                 repo := Some ?r2, worktree := ?S\<rparr>"
    by (auto split: if_splits)
  have g2: "git_on_path w2" "repo w2 = Some ?r2" "worktree w2 = ?S" using g1 w2 by simp_all
  have wf2: "wf_repo ?r2" using e1(1) by (intro wf_record_commit) (simp add: wf_repo_def)
  have cl2: "clean_state ?r2 (worktree w2)" unfolding g2(3) by (rule clean_after_commit)
  have un2: "uniform ?r2" by (rule uniform_first_commit) (simp add: e1)
  have rd2: "ready ?r2 (worktree w2)"
    using wf2 cl2 by (simp add: ready_def head_chain_record_commit)
  from auto_commit_in_repo[OF g2(1,2), of init_message] cl2 i(3) have
    w3: "w3 = w2\<lparr>calls := calls w2 @ [Status_porcelain]\<rparr>" by simp
  have g3: "git_on_path w3" "repo w3 = Some ?r2" "ready ?r2 (worktree w3)" "worktree w3 = ?S"
    using g2 rd2 w3 by simp_all
  from tail_effect[OF g3(1,2,3)] i(4) un2 have "map_of (worktree w') = map_of (worktree w3)"
    by auto
  then show ?thesis using g3(4) by simp
qed

text \<open>
  Claim C6, as amended. When \<open>initialize\<close> succeeds where there was no commit yet (no
  repository, or one without branches), the ignore-list file can be read and written and
  is absent or a text file, then afterwards the file exists and has the entry of the
  switcher script among its lines: a file that had the entry is unchanged, a file
  without it has the entry appended and holds it exactly once, and a new file holds
  it exactly once.
\<close>

theorem cursorignore_entry:
  assumes ok: "initialize self w = (Inr (), w')" and nc: "no_commits w"
    and io: "[''.cursorignore''] \<notin> set (io_fail w)"
    and tx: "\<forall>ms. map_of (worktree w) [''.cursorignore''] \<noteq> Some (Zip ms)"
  shows "\<exists>s'. cursorignore_text (worktree w') = Some s' \<and>
           switcher_entry \<in> set (entry_lines s') \<and>
           (case cursorignore_text (worktree w) of
              None \<Rightarrow> entry_count s' = 1
            | Some s \<Rightarrow>
                if switcher_entry \<in> set (entry_lines s) then s' = s
                else s' = appended_entry s \<and> entry_count s' = 1)"
proof -
  have m: "cursorignore_text (worktree w') = cursorignore_text (seeded_tree w)"
    by (rule cursorignore_text_cong[OF first_initialize_worktree[OF ok nc]])
  have pos: "switcher_entry \<in> set (entry_lines x)" if "entry_count x = 1" for x
  proof (rule ccontr)
    assume "switcher_entry \<notin> set (entry_lines x)"
    then have "count_list (entry_lines x) switcher_entry = 0" by (simp add: count_list_0_iff)
    with that show False by (simp add: entry_count_def)
  qed
  show ?thesis
  proof (cases "map_of (worktree w) [''.cursorignore'']")
    case None
    have cw: "cursorignore_text (worktree w) = None"
      using None by (simp add: cursorignore_text_def)
    have cs: "cursorignore_text (worktree w') =
                Some (ignore_comment @ [newline] @ switcher_entry @ [newline])"
      unfolding m using None seeded_cursorignore[OF io] by (simp add: cursorignore_text_def)
    show ?thesis
      using entry_count_created pos[OF entry_count_created] by (simp add: cw cs)
  next
    case (Some c)
    with tx obtain s where c: "c = Text s" by (cases c) auto
    have cw: "cursorignore_text (worktree w) = Some s"
      using Some c by (simp add: cursorignore_text_def)
    have cs: "cursorignore_text (worktree w') =
                Some (if switcher_entry \<in> set (entry_lines s) then s else appended_entry s)"
      unfolding m using Some c seeded_cursorignore[OF io] by (simp add: cursorignore_text_def)
    show ?thesis
    proof (cases "switcher_entry \<in> set (entry_lines s)")
      case True
      then show ?thesis by (simp add: cw cs)
    next
      case False
      then show ?thesis
        using entry_count_appended[OF False] pos[OF entry_count_appended[OF False]]
        by (simp add: cw cs)
    qed
  qed
qed

section \<open>Worked examples of the archive operation\<close>

lemmas eval_defs =
  create_zip_def check_git_available_def zip_message_def
  auto_commit_def run_git_command_def subprocess_run_def Let_def status_lines_def
  changed_paths_def head_tree_def head_chain_def tip_tree_def base_tree_def sonnet_tree_def
  gpt_tree_def strip_def lstrip_def rstrip_def is_space_def newline_def path_str_def
  get_current_branch_def record_commit_def tree_eq_def verify_branches_different_def
  CodebaseSwitcher_def branch_exists_def branch_pairs_def write_archive_def zip_name_of_def
  write_file_def strftime_stamp_def pad2_def pad4_def digit_def example_clock_def rglob_def
  head_file_def should_exclude_def path_name_def cleanup_switcher_branches_def
  switch_tree_def checkout_conflict_def map_filter_simps file_exists_def update_conv' delete_conv'

lemma midway_archive:
  "fst (create_zip CodebaseSwitcher midway_world) = Inr ()"
  "file_exists [''codebase_proj_20240507_090301.zip'']
     (snd (create_zip CodebaseSwitcher midway_world))"
  by (simp_all add: midway_world_def midway_repo_def eval_defs)

lemma feature_archive:
  "fst (create_zip CodebaseSwitcher feature_world) = Inr ()"
  "map_option r_head (repo (snd (create_zip CodebaseSwitcher feature_world))) =
     Some (OnBranch ''feature'')"
  by (simp_all add: feature_world_def feature_repo_def eval_defs)

theorem archive_identical_branches_counterexample:
  "same_tip midway_repo (''preedit'', ''sonnet'') \<and>
   fst (create_zip CodebaseSwitcher midway_world) = Inr () \<and>
   file_exists [''codebase_proj_20240507_090301.zip'']
     (snd (create_zip CodebaseSwitcher midway_world))"
  using midway_archive
  by (simp add: same_tip_def midway_repo_def tree_eq_def tip_tree_def base_tree_def)

theorem archive_then_cleanup_counterexample:
  "fst (create_zip CodebaseSwitcher feature_world) = Inr () \<and>
   map_option r_head (repo (snd (create_zip CodebaseSwitcher feature_world))) =
     Some (OnBranch ''feature'') \<and>
   ''feature'' \<notin> {''main'', ''master''}"
  using feature_archive by simp

lemmas example_repo_defs =
  example_world_def example_repo_def clean_state_def tree_eq_def head_tree_def head_chain_def
  tip_tree_def base_tree_def committed_repo_def same_tip_def branch_pairs_def

theorem archive_identical_branches_witness:
  "clean_state (example_repo ''gpt'') base_tree \<and>
   same_tip (example_repo ''gpt'') (''preedit'', ''gpt'') \<and>
   (\<exists>w'. create_zip CodebaseSwitcher (example_world ''gpt'' base_tree) =
            (Inl DegenerateBranches, w') \<and> worktree w' = base_tree)"
proof -
  let ?w = "example_world ''gpt'' base_tree"
  let ?r = "example_repo ''gpt''"
  have c: "clean_state ?r base_tree" by (simp add: example_repo_defs)
  have t: "same_tip ?r (''preedit'', ''gpt'')" by (simp add: example_repo_defs)
  have cr: "committed_repo ?r (worktree ?w) = ?r"
    using c by (simp add: committed_repo_def example_world_def)
  have "\<exists>w'. create_zip CodebaseSwitcher ?w = (Inl DegenerateBranches, w') \<and>
           worktree w' = worktree ?w \<and> repo w' = Some (committed_repo ?r (worktree ?w))"
  proof (rule archive_identical_branches)
    show "git_on_path ?w" "repo ?w = Some ?r" by (simp_all add: example_world_def)
    show "states CodebaseSwitcher = [''preedit'', ''gpt'', ''sonnet'']"
      by (simp add: CodebaseSwitcher_def)
    show "clean_state ?r (worktree ?w) \<or> \<not> tree_eq (worktree ?w) (head_tree ?r)"
      using c by (simp add: example_world_def)
    show "\<forall>b \<in> set (states CodebaseSwitcher).
            map_of (r_branches (committed_repo ?r (worktree ?w))) b \<noteq> None"
      unfolding cr by (simp add: CodebaseSwitcher_def example_repo_def)
    show "\<exists>p \<in> set branch_pairs. same_tip (committed_repo ?r (worktree ?w)) p"
      unfolding cr using t by (simp add: branch_pairs_def)
  qed
  moreover have "worktree ?w = base_tree" by (simp add: example_world_def)
  ultimately have "\<exists>w'. create_zip CodebaseSwitcher ?w = (Inl DegenerateBranches, w') \<and>
           worktree w' = base_tree"
    by metis
  with c t show ?thesis by blast
qed


theorem archive_members_witness:
  "zip_walk CodebaseSwitcher ''codebase_proj_20240507_090301.zip'' [[''data'', ''locked.bin'']]
     ([([''src''], None)] @ ([''src'', ''app.py''], Some (Text ''print(1)'')) # walk_tail) =
     (''src/app.py'', Text ''print(1)'') #
     zip_walk CodebaseSwitcher ''codebase_proj_20240507_090301.zip'' [[''data'', ''locked.bin'']]
       walk_tail \<and>
   zip_walk CodebaseSwitcher ''codebase_proj_20240507_090301.zip'' [[''data'', ''locked.bin'']]
     ([([''codebase_switcher2.py''], Some (Text ''import argparse''))] @
      ([''data'', ''locked.bin''], Some (Text ''raw'')) #
      [([''.git'', ''HEAD''], Some (Text ''ref: refs/heads/gpt''))]) =
     zip_walk CodebaseSwitcher ''codebase_proj_20240507_090301.zip'' [[''data'', ''locked.bin'']]
       [([''codebase_switcher2.py''], Some (Text ''import argparse''))] @
     [(''.git/HEAD'', Text ''ref: refs/heads/gpt'')]"
  using archive_members
      [of "[''src'', ''app.py'']" CodebaseSwitcher "''codebase_proj_20240507_090301.zip''"
        "[[''data'', ''locked.bin'']]" "[([''src''], None)]" "Text ''print(1)''" walk_tail]
    archive_members
      [of "[''data'', ''locked.bin'']" CodebaseSwitcher "''codebase_proj_20240507_090301.zip''"
        "[[''data'', ''locked.bin'']]"
        "[([''codebase_switcher2.py''], Some (Text ''import argparse''))]"
        "Text ''raw''" "[([''.git'', ''HEAD''], Some (Text ''ref: refs/heads/gpt''))]"]
  by (simp add: path_name_def switcher_entry_def CodebaseSwitcher_def should_exclude_def
      path_str_def)

theorem archive_members_counterexample:
  "path_name [''data'', ''locked.bin''] \<noteq> ''out.zip'' \<and>
   path_name [''data'', ''locked.bin''] \<notin> set (script_files CodebaseSwitcher) \<and>
   \<not> should_exclude CodebaseSwitcher [''data'', ''locked.bin''] \<and>
   zip_walk CodebaseSwitcher ''out.zip'' [[''data'', ''locked.bin'']]
     [([''data'', ''locked.bin''], Some (Text ''raw''))] = []"
  by (simp add: path_name_def CodebaseSwitcher_def should_exclude_def path_str_def)

theorem archive_then_cleanup_witness:
  "fst (create_zip CodebaseSwitcher midway_world) = Inr () \<and>
   (\<exists>r'. repo (snd (create_zip CodebaseSwitcher midway_world)) = Some r' \<and>
      map_of (r_branches r') ''preedit'' = None \<and>
      map_of (r_branches r') ''gpt'' = None \<and>
      map_of (r_branches r') ''sonnet'' = None \<and>
      r_head r' = OnBranch ''main'')"
proof -
  let ?w = midway_world
  let ?r = midway_repo
  let ?w' = "snd (create_zip CodebaseSwitcher ?w)"
  have ok: "create_zip CodebaseSwitcher ?w = (Inr (), ?w')"
    using midway_archive(1) by (simp add: prod_eq_iff)
  have z: "zip_name_of ?w = ''codebase_proj_20240507_090301.zip''"
    by (simp add: zip_name_of_def midway_world_def strftime_stamp_def pad2_def pad4_def
        digit_def example_clock_def)
  have l: "landing CodebaseSwitcher (committed_repo ?r (worktree ?w)) ''sonnet'' = ''main''"
    by (simp add: landing_def first_trunk_def committed_repo_def record_commit_def
        midway_repo_def midway_world_def clean_state_def tree_eq_def head_tree_def
        head_chain_def tip_tree_def base_tree_def sonnet_tree_def CodebaseSwitcher_def update_conv')
  have "\<exists>r'. repo ?w' = Some r' \<and>
           (\<forall>n \<in> set (states CodebaseSwitcher). map_of (r_branches r') n = None) \<and>
           r_head r' = OnBranch (landing CodebaseSwitcher (committed_repo ?r (worktree ?w)) ''sonnet'') \<and>
           worktree (delete_branches (states CodebaseSwitcher) ?w) = worktree ?w"
  proof (rule archive_then_cleanup [OF _ _ _ _ _ ok])
    show "git_on_path ?w" "repo ?w = Some ?r" by (simp_all add: midway_world_def)
    show "states CodebaseSwitcher = [''preedit'', ''gpt'', ''sonnet'']"
      by (simp add: CodebaseSwitcher_def)
    show "r_head ?r = OnBranch ''sonnet''" by (simp add: midway_repo_def)
    show "ref_name ''sonnet''" by (simp add: ref_name_def is_space_def)
    show "map_of (worktree ?w) [zip_name_of ?w] = None"
      unfolding z by (simp add: midway_world_def sonnet_tree_def)
    show "map_of (head_tree ?r) [zip_name_of ?w] = None"
      unfolding z by (simp add: midway_repo_def head_tree_def head_chain_def tip_tree_def
          base_tree_def)
    show "\<not> tracks ?r ''main'' [zip_name_of ?w]" "\<not> tracks ?r ''master'' [zip_name_of ?w]"
      unfolding z by (simp_all add: tracks_def midway_repo_def tip_tree_def base_tree_def)
  qed
  with l midway_archive(1) show ?thesis by (auto simp: CodebaseSwitcher_def)
qed

section \<open>Worked examples of the initialization\<close>

lemmas init_eval_defs =
  initialize_def init_repository_def create_initial_commit_def write_readme_def readme_text_def
  strftime_readme_def update_cursorignore_def read_text_def ignore_comment_def
  switcher_entry_def init_message_def create_branches_def ensure_preedit_def
  check_git_available_def
  auto_commit_def run_git_command_def subprocess_run_def Let_def status_lines_def
  changed_paths_def head_tree_def head_chain_def tip_tree_def base_tree_def
  strip_def lstrip_def rstrip_def is_space_def newline_def path_str_def
  get_current_branch_def record_commit_def tree_eq_def
  CodebaseSwitcher_def branch_exists_def
  write_file_def pad2_def pad4_def digit_def example_clock_def
  switch_tree_def checkout_conflict_def map_filter_simps file_exists_def update_conv'

lemma fresh_initialize: "fst (initialize CodebaseSwitcher fresh_world) = Inr ()"
  by (simp add: fresh_world_def init_eval_defs)

lemma plain_initialize:
  "fst (initialize CodebaseSwitcher plain_world) = Inr ()"
  "\<not> file_exists [''.cursorignore''] (snd (initialize CodebaseSwitcher plain_world))"
  by (simp_all add: plain_world_def init_eval_defs)

theorem cursorignore_entry_counterexample:
  "fst (initialize CodebaseSwitcher plain_world) = Inr () \<and>
   \<not> file_exists [''.cursorignore''] (snd (initialize CodebaseSwitcher plain_world))"
  using plain_initialize by simp

theorem initialize_idempotent_witness:
  "fst (initialize CodebaseSwitcher fresh_world) = Inr () \<and>
   (\<exists>r1 w2 r2.
      repo (snd (initialize CodebaseSwitcher fresh_world)) = Some r1 \<and>
      r_head r1 = OnBranch ''preedit'' \<and>
      initialize CodebaseSwitcher (snd (initialize CodebaseSwitcher fresh_world)) = (Inr (), w2) \<and>
      repo w2 = Some r2 \<and> r_head r2 = OnBranch ''preedit'' \<and>
      r_branches r2 = r_branches r1)"
proof -
  let ?w1 = "snd (initialize CodebaseSwitcher fresh_world)"
  have ok: "initialize CodebaseSwitcher fresh_world = (Inr (), ?w1)"
    using fresh_initialize by (simp add: prod_eq_iff)
  have wf0: "case repo fresh_world of None \<Rightarrow> True | Some r \<Rightarrow> wf_repo r"
    by (simp add: fresh_world_def)
  from initialize_idempotent[OF ok wf0] fresh_initialize show ?thesis by blast
qed

theorem cursorignore_entry_witness:
  "fst (initialize CodebaseSwitcher fresh_world) = Inr () \<and>
   cursorignore_text (worktree fresh_world) = None \<and>
   (\<exists>s'. cursorignore_text (worktree (snd (initialize CodebaseSwitcher fresh_world))) = Some s' \<and>
      entry_count s' = 1)"
proof -
  let ?w1 = "snd (initialize CodebaseSwitcher fresh_world)"
  have ok: "initialize CodebaseSwitcher fresh_world = (Inr (), ?w1)"
    using fresh_initialize by (simp add: prod_eq_iff)
  have nc: "no_commits fresh_world" by (simp add: no_commits_def fresh_world_def)
  have io: "[''.cursorignore''] \<notin> set (io_fail fresh_world)" by (simp add: fresh_world_def)
  have tx: "\<forall>ms. map_of (worktree fresh_world) [''.cursorignore''] \<noteq> Some (Zip ms)"
    by (simp add: fresh_world_def base_tree_def)
  have cw: "cursorignore_text (worktree fresh_world) = None"
    by (simp add: cursorignore_text_def fresh_world_def base_tree_def)
  from cursorignore_entry[OF ok nc io tx] cw fresh_initialize show ?thesis by auto
qed

end
